theory Spec2Isabelle
  imports Main
begin

section \<open>Data model\<close>

text \<open>
  The two marks \<open>'X'\<close> and \<open>'O'\<close> (the name \<open>O\<close> is taken by relation composition).
  The human plays X and moves first, the computer plays O.
\<close>

datatype player = PlayerX | PlayerO

text \<open>
  A value read from a slot of the board array. The declared element type is
  \<open>Player | null\<close>; a read past the end of a JavaScript array, or in a gap left by a
  write past the end, gives \<open>undefined\<close>, which is a third value at run time.
\<close>

datatype cell = Null | Undefined | Mark player

type_synonym board = "cell list"

datatype game_state = Playing | Won | Draw

text \<open>The counters are JavaScript numbers that only ever start at 0 and grow by 1.\<close>

record game_stats =
  xWins :: nat
  oWins :: nat
  draws :: nat

text \<open>The five \<open>useState\<close> cells of the component, as one state value.\<close>

record session =
  board :: board
  currentPlayer :: player
  gameState :: game_state
  winner :: "player option"
  stats :: game_stats

text \<open>
  The value of a \<open>number\<close> that holds a score: an integer, or one of the two infinities
  the search starts its running best from.
\<close>

datatype score = NegInf | Fin int | PosInf

instantiation score :: linorder
begin

fun less_eq_score :: "score \<Rightarrow> score \<Rightarrow> bool" where
  "less_eq_score NegInf _ = True"
| "less_eq_score (Fin a) NegInf = False"
| "less_eq_score (Fin a) (Fin b) = (a \<le> b)"
| "less_eq_score (Fin a) PosInf = True"
| "less_eq_score PosInf PosInf = True"
| "less_eq_score PosInf _ = False"

definition less_score :: "score \<Rightarrow> score \<Rightarrow> bool" where
  "less_score a b = (a \<le> b \<and> \<not> b \<le> a)"

instance
proof
  fix x y z :: score
  show "(x < y) = (x \<le> y \<and> \<not> y \<le> x)" by (simp add: less_score_def)
  show "x \<le> x" by (cases x) simp_all
  show "x \<le> y \<Longrightarrow> y \<le> z \<Longrightarrow> x \<le> z" by (cases x; cases y; cases z) simp_all
  show "x \<le> y \<Longrightarrow> y \<le> x \<Longrightarrow> x = y" by (cases x; cases y) simp_all
  show "x \<le> y \<or> y \<le> x" by (cases x; cases y) auto
qed

end

text \<open>Unary minus on scores.\<close>

fun negate :: "score \<Rightarrow> score" where
  "negate NegInf = PosInf"
| "negate (Fin a) = Fin (- a)"
| "negate PosInf = NegInf"

section \<open>JavaScript array reads and writes\<close>

text \<open>\<open>board[i]\<close> for a non-negative integer \<open>i\<close>: \<open>undefined\<close> past the end.\<close>

definition js_get :: "board \<Rightarrow> nat \<Rightarrow> cell" where
  "js_get b i = (if i < length b then b ! i else Undefined)"

text \<open>
  \<open>newBoard[i] = v\<close> on a fresh copy: in range it replaces the slot; past the end the
  array grows to length \<open>i + 1\<close> and the slots in between read as \<open>undefined\<close>.
\<close>

definition js_set :: "board \<Rightarrow> nat \<Rightarrow> cell \<Rightarrow> board" where
  "js_set b i v =
     (if i < length b then b[i := v]
      else b @ replicate (i - length b) Undefined @ [v])"

text \<open>JavaScript truthiness of a slot: the marks are non-empty strings.\<close>

fun truthy :: "cell \<Rightarrow> bool" where
  "truthy (Mark _) = True"
| "truthy Null = False"
| "truthy Undefined = False"

section \<open>Terminal evaluation\<close>

definition winningCombinations :: "(nat \<times> nat \<times> nat) list" where
  "winningCombinations =
     [(0, 1, 2), (3, 4, 5), (6, 7, 8),
      (0, 3, 6), (1, 4, 7), (2, 5, 8),
      (0, 4, 8), (2, 4, 6)]"

text \<open>The \<open>for (const combo of ...)\<close> loop of \<open>checkWinner\<close>, with its early return.\<close>

fun checkWinner_loop :: "board \<Rightarrow> (nat \<times> nat \<times> nat) list \<Rightarrow> player option" where
  "checkWinner_loop b [] = None"
| "checkWinner_loop b ((a, b', c) # rest) =
     (if truthy (js_get b a) \<and> js_get b a = js_get b b' \<and> js_get b a = js_get b c
      then (case js_get b a of Mark p \<Rightarrow> Some p | _ \<Rightarrow> None)
      else checkWinner_loop b rest)"

definition checkWinner :: "board \<Rightarrow> player option" where
  "checkWinner b = checkWinner_loop b winningCombinations"

definition isBoardFull :: "board \<Rightarrow> bool" where
  "isBoardFull b = list_all (\<lambda>cell. cell \<noteq> Null) b"

text \<open>\<open>board.map((cell, index) => cell === null ? index : -1).filter(index => index !== -1)\<close>\<close>

definition getEmptyCells :: "board \<Rightarrow> int list" where
  "getEmptyCells b =
     filter (\<lambda>index. index \<noteq> - 1)
       (map (\<lambda>(cell, index). if cell = Null then int index else - 1)
          (zip b [0..<length b]))"

section \<open>Game-tree search\<close>

text \<open>The number of empty cells of a board: the measure by which the search terminates.\<close>

definition emptyCount :: "board \<Rightarrow> nat" where
  "emptyCount b = length (filter (\<lambda>c. c = Null) b)"

lemma emptyCount_update:
  "i < length b \<Longrightarrow> b ! i = Null \<Longrightarrow> v \<noteq> Null \<Longrightarrow>
   Suc (emptyCount (b[i := v])) = emptyCount b"
  unfolding emptyCount_def
proof (induction b arbitrary: i)
  case Nil
  then show ?case by simp
next
  case (Cons c cs)
  then show ?case by (cases i) auto
qed

lemma emptyCount_js_set:
  "js_get b i = Null \<Longrightarrow> v \<noteq> Null \<Longrightarrow> Suc (emptyCount (js_set b i v)) = emptyCount b"
  by (auto simp: js_get_def js_set_def emptyCount_update split: if_splits)

text \<open>
  \<open>minimax\<close>: the two \<open>for (let i = 0; i < 9; i++)\<close> loops are folds over the indices
  0..8 that carry \<open>bestScore\<close>; \<open>depth\<close> is an integer.
\<close>

function minimax :: "board \<Rightarrow> int \<Rightarrow> bool \<Rightarrow> score" where
  "minimax b depth isMaximizing =
     (if checkWinner b = Some PlayerO then Fin (10 - depth)
      else if checkWinner b = Some PlayerX then Fin (depth - 10)
      else if isBoardFull b then Fin 0
      else if isMaximizing then
        foldl (\<lambda>bestScore i.
                 if js_get b i = Null
                 then max (minimax (js_set b i (Mark PlayerO)) (depth + 1) False) bestScore
                 else bestScore)
          NegInf [0..<9]
      else
        foldl (\<lambda>bestScore i.
                 if js_get b i = Null
                 then min (minimax (js_set b i (Mark PlayerX)) (depth + 1) True) bestScore
                 else bestScore)
          PosInf [0..<9])"
  by pat_completeness auto
termination
proof (relation "measure (\<lambda>(b, depth, isMaximizing). emptyCount b)")
  show "wf (measure (\<lambda>(b, depth, isMaximizing). emptyCount b))" by simp
next
  fix b :: board and depth :: int and isMaximizing :: bool and bestScore :: score and i :: nat
  assume "js_get b i = Null"
  then have "Suc (emptyCount (js_set b i (Mark PlayerO))) = emptyCount b"
    by (rule emptyCount_js_set) simp
  then show "((js_set b i (Mark PlayerO), depth + 1, False), b, depth, isMaximizing)
      \<in> measure (\<lambda>(b, depth, isMaximizing). emptyCount b)" by simp
next
  fix b :: board and depth :: int and isMaximizing :: bool and bestScore :: score and i :: nat
  assume "js_get b i = Null"
  then have "Suc (emptyCount (js_set b i (Mark PlayerX))) = emptyCount b"
    by (rule emptyCount_js_set) simp
  then show "((js_set b i (Mark PlayerX), depth + 1, True), b, depth, isMaximizing)
      \<in> measure (\<lambda>(b, depth, isMaximizing). emptyCount b)" by simp
qed

declare minimax.simps [simp del]

text \<open>
  \<open>getBestMove\<close>: the loop carries \<open>bestScore\<close> and \<open>bestMove\<close>; \<open>- 1\<close> is the value
  \<open>bestMove\<close> starts from.
\<close>

definition getBestMove :: "board \<Rightarrow> int" where
  "getBestMove b =
     snd (foldl (\<lambda>(bestScore, bestMove) i.
                   if js_get b i = Null
                   then (let score = minimax (js_set b i (Mark PlayerO)) 0 False
                         in if score > bestScore then (score, int i)
                            else (bestScore, bestMove))
                   else (bestScore, bestMove))
            (NegInf, - 1) [0..<9])"

section \<open>The session\<close>

definition initialStats :: game_stats where
  "initialStats = \<lparr>xWins = 0, oWins = 0, draws = 0\<rparr>"

definition emptyBoard :: board where
  "emptyBoard = replicate 9 Null"

definition initialSession :: session where
  "initialSession =
     \<lparr>board = emptyBoard, currentPlayer = PlayerX, gameState = Playing,
      winner = None, stats = initialStats\<rparr>"

text \<open>The functional update \<open>setStats(prev => ...)\<close> that counts a win.\<close>

definition countWin :: "player \<Rightarrow> game_stats \<Rightarrow> game_stats" where
  "countWin gameWinner prev =
     (if gameWinner = PlayerX then prev\<lparr>xWins := xWins prev + 1\<rparr>
      else prev\<lparr>oWins := oWins prev + 1\<rparr>)"

text \<open>
  \<open>handleCellClick\<close> of the two-player component. The index is a non-negative
  integer: the buttons pass array indices.
\<close>

definition handleCellClick :: "nat \<Rightarrow> session \<Rightarrow> session" where
  "handleCellClick index s =
     (if truthy (js_get (board s) index) \<or> gameState s \<noteq> Playing then s
      else
        let newBoard = js_set (board s) index (Mark (currentPlayer s)) in
        case checkWinner newBoard of
          Some gameWinner \<Rightarrow>
            s\<lparr>board := newBoard, winner := Some gameWinner, gameState := Won,
              stats := countWin gameWinner (stats s)\<rparr>
        | None \<Rightarrow>
            if isBoardFull newBoard
            then s\<lparr>board := newBoard, gameState := Draw,
                   stats := (stats s)\<lparr>draws := draws (stats s) + 1\<rparr>\<rparr>
            else s\<lparr>board := newBoard,
                   currentPlayer :=
                     (if currentPlayer s = PlayerX then PlayerO else PlayerX)\<rparr>)"

text \<open>\<open>handleCellClick\<close> of the component that plays against the computer.\<close>

definition handleCellClick_computer :: "nat \<Rightarrow> session \<Rightarrow> session" where
  "handleCellClick_computer index s =
     (if truthy (js_get (board s) index) \<or> gameState s \<noteq> Playing
         \<or> currentPlayer s \<noteq> PlayerX then s
      else
        let newBoard = js_set (board s) index (Mark PlayerX) in
        case checkWinner newBoard of
          Some gameWinner \<Rightarrow>
            s\<lparr>board := newBoard, winner := Some gameWinner, gameState := Won,
              stats := countWin gameWinner (stats s)\<rparr>
        | None \<Rightarrow>
            if isBoardFull newBoard
            then s\<lparr>board := newBoard, gameState := Draw,
                   stats := (stats s)\<lparr>draws := draws (stats s) + 1\<rparr>\<rparr>
            else s\<lparr>board := newBoard, currentPlayer := PlayerO\<rparr>)"

text \<open>
  \<open>makeComputerMove\<close>. The parameter \<open>rnd\<close> stands for the random draw
  \<open>Math.floor(Math.random() * emptyCells.length)\<close>, which lies below
  \<open>emptyCells.length\<close>; it is only read when \<open>getBestMove\<close> gave \<open>- 1\<close>.
\<close>

definition makeComputerMove :: "nat \<Rightarrow> session \<Rightarrow> board \<Rightarrow> session" where
  "makeComputerMove rnd s currentBoard =
     (let emptyCells = getEmptyCells currentBoard in
      if length emptyCells = 0 then s
      else
        let computerMove = getBestMove currentBoard;
            computerMove =
              (if computerMove = - 1 then emptyCells ! (rnd mod length emptyCells)
               else computerMove);
            newBoard = js_set currentBoard (nat computerMove) (Mark PlayerO)
        in
        case checkWinner newBoard of
          Some gameWinner \<Rightarrow>
            s\<lparr>board := newBoard, winner := Some gameWinner, gameState := Won,
              stats := countWin gameWinner (stats s)\<rparr>
        | None \<Rightarrow>
            if isBoardFull newBoard
            then s\<lparr>board := newBoard, gameState := Draw,
                   stats := (stats s)\<lparr>draws := draws (stats s) + 1\<rparr>\<rparr>
            else s\<lparr>board := newBoard, currentPlayer := PlayerX\<rparr>)"

text \<open>
  The effect that fires the computer's move: when it is O's turn in a running game,
  \<open>makeComputerMove\<close> runs on the board of the session.
\<close>

definition computerEffect :: "nat \<Rightarrow> session \<Rightarrow> session" where
  "computerEffect rnd s =
     (if currentPlayer s = PlayerO \<and> gameState s = Playing
      then makeComputerMove rnd s (board s) else s)"

definition resetGame :: "session \<Rightarrow> session" where
  "resetGame s =
     s\<lparr>board := replicate 9 Null, currentPlayer := PlayerX, gameState := Playing,
       winner := None\<rparr>"

definition resetStats :: "session \<Rightarrow> session" where
  "resetStats s = s\<lparr>stats := \<lparr>xWins = 0, oWins = 0, draws = 0\<rparr>\<rparr>"

section \<open>Notions used to state the properties\<close>

text \<open>A line is held by a player when its three slots all carry that player's mark.\<close>

fun lineHeldBy :: "board \<Rightarrow> player \<Rightarrow> nat \<times> nat \<times> nat \<Rightarrow> bool" where
  "lineHeldBy b p (a, b', c) =
     (js_get b a = Mark p \<and> js_get b b' = Mark p \<and> js_get b c = Mark p)"

text \<open>Relabelling the marks: every X becomes O and every O becomes X.\<close>

fun swapPlayer :: "player \<Rightarrow> player" where
  "swapPlayer PlayerX = PlayerO"
| "swapPlayer PlayerO = PlayerX"

fun swapCell :: "cell \<Rightarrow> cell" where
  "swapCell (Mark p) = Mark (swapPlayer p)"
| "swapCell Null = Null"
| "swapCell Undefined = Undefined"

definition swapMarks :: "board \<Rightarrow> board" where
  "swapMarks b = map swapCell b"

text \<open>
  The search with a budget on the nesting of its calls: \<open>None\<close> when the budget is
  used up before a result is reached.
\<close>

fun minimax_fuel :: "nat \<Rightarrow> board \<Rightarrow> int \<Rightarrow> bool \<Rightarrow> score option" where
  "minimax_fuel 0 b depth isMaximizing = None"
| "minimax_fuel (Suc fuel) b depth isMaximizing =
     (if checkWinner b = Some PlayerO then Some (Fin (10 - depth))
      else if checkWinner b = Some PlayerX then Some (Fin (depth - 10))
      else if isBoardFull b then Some (Fin 0)
      else if isMaximizing then
        foldl (\<lambda>bestScore i.
                 if js_get b i = Null
                 then (case minimax_fuel fuel (js_set b i (Mark PlayerO)) (depth + 1) False of
                         None \<Rightarrow> None
                       | Some score \<Rightarrow> map_option (max score) bestScore)
                 else bestScore)
          (Some NegInf) [0..<9]
      else
        foldl (\<lambda>bestScore i.
                 if js_get b i = Null
                 then (case minimax_fuel fuel (js_set b i (Mark PlayerX)) (depth + 1) True of
                         None \<Rightarrow> None
                       | Some score \<Rightarrow> map_option (min score) bestScore)
                 else bestScore)
          (Some PosInf) [0..<9])"

text \<open>The index \<open>makeComputerMove\<close> writes to: the result of \<open>getBestMove\<close>, or the random
  empty cell when that result is \<open>- 1\<close>.\<close>

definition computerMoveIndex :: "nat \<Rightarrow> board \<Rightarrow> nat" where
  "computerMoveIndex rnd currentBoard =
     nat (if getBestMove currentBoard = - 1
          then getEmptyCells currentBoard ! (rnd mod length (getEmptyCells currentBoard))
          else getBestMove currentBoard)"

text \<open>What a session looks like after a move that produced the board \<open>board s'\<close>.\<close>

definition outcomeRecorded :: "session \<Rightarrow> session \<Rightarrow> bool" where
  "outcomeRecorded s s' =
     ((\<forall>w. checkWinner (board s') = Some w \<longrightarrow>
          gameState s' = Won \<and> winner s' = Some w
          \<and> (w = PlayerX \<longrightarrow> stats s' = (stats s)\<lparr>xWins := xWins (stats s) + 1\<rparr>)
          \<and> (w = PlayerO \<longrightarrow> stats s' = (stats s)\<lparr>oWins := oWins (stats s) + 1\<rparr>))
      \<and> (gameState s' = Draw \<longleftrightarrow> checkWinner (board s') = None \<and> isBoardFull (board s'))
      \<and> (gameState s' = Draw \<longrightarrow> stats s' = (stats s)\<lparr>draws := draws (stats s) + 1\<rparr>))"

section \<open>Deciding bounds on the score without visiting the whole tree\<close>

text \<open>
  Proof devices, not part of the program: \<open>scoreAtLeast\<close> and \<open>scoreAtMost\<close> decide
  whether the score of a position is at least, or at most, a given integer. They stop
  at the first child that settles the question, so they can be evaluated where the full
  search is too large to evaluate. They are proved below to agree with \<open>minimax\<close>.
\<close>

fun anyOf :: "('a \<Rightarrow> bool) \<Rightarrow> 'a list \<Rightarrow> bool" where
  "anyOf P [] = False"
| "anyOf P (x # xs) = (if P x then True else anyOf P xs)"

fun allOf :: "('a \<Rightarrow> bool) \<Rightarrow> 'a list \<Rightarrow> bool" where
  "allOf P [] = True"
| "allOf P (x # xs) = (if P x then allOf P xs else False)"

lemma anyOf_iff: "anyOf P xs \<longleftrightarrow> (\<exists>x \<in> set xs. P x)"
  by (induction xs) auto

lemma allOf_iff: "allOf P xs \<longleftrightarrow> (\<forall>x \<in> set xs. P x)"
  by (induction xs) auto

lemma anyOf_cong [fundef_cong]:
  "xs = ys \<Longrightarrow> (\<And>x. x \<in> set ys \<Longrightarrow> P x = Q x) \<Longrightarrow> anyOf P xs = anyOf Q ys"
  by (simp add: anyOf_iff)

lemma allOf_cong [fundef_cong]:
  "xs = ys \<Longrightarrow> (\<And>x. x \<in> set ys \<Longrightarrow> P x = Q x) \<Longrightarrow> allOf P xs = allOf Q ys"
  by (simp add: allOf_iff)

definition searchOrder :: "nat list" where
  "searchOrder = [4, 0, 2, 6, 8, 1, 3, 5, 7]"

function scoreAtLeast :: "board \<Rightarrow> int \<Rightarrow> bool \<Rightarrow> int \<Rightarrow> bool" where
  "scoreAtLeast b depth isMaximizing k =
     (if checkWinner b = Some PlayerO then k \<le> 10 - depth
      else if checkWinner b = Some PlayerX then k \<le> depth - 10
      else if isBoardFull b then k \<le> 0
      else if isMaximizing then
        anyOf (\<lambda>i. scoreAtLeast (js_set b i (Mark PlayerO)) (depth + 1) False k)
          (filter (\<lambda>i. js_get b i = Null) searchOrder)
      else
        allOf (\<lambda>i. scoreAtLeast (js_set b i (Mark PlayerX)) (depth + 1) True k)
          (filter (\<lambda>i. js_get b i = Null) searchOrder))"
  by pat_completeness auto
termination
proof (relation "measure (\<lambda>(b, depth, isMaximizing, k). emptyCount b)")
  show "wf (measure (\<lambda>(b, depth, isMaximizing, k). emptyCount b))" by simp
next
  fix b :: board and depth :: int and isMaximizing :: bool and k :: int and i :: nat
  assume "i \<in> set (filter (\<lambda>i. js_get b i = Null) searchOrder)"
  then have "Suc (emptyCount (js_set b i (Mark PlayerO))) = emptyCount b"
    by (intro emptyCount_js_set) simp_all
  then show "((js_set b i (Mark PlayerO), depth + 1, False, k), b, depth, isMaximizing, k)
      \<in> measure (\<lambda>(b, depth, isMaximizing, k). emptyCount b)" by simp
next
  fix b :: board and depth :: int and isMaximizing :: bool and k :: int and i :: nat
  assume "i \<in> set (filter (\<lambda>i. js_get b i = Null) searchOrder)"
  then have "Suc (emptyCount (js_set b i (Mark PlayerX))) = emptyCount b"
    by (intro emptyCount_js_set) simp_all
  then show "((js_set b i (Mark PlayerX), depth + 1, True, k), b, depth, isMaximizing, k)
      \<in> measure (\<lambda>(b, depth, isMaximizing, k). emptyCount b)" by simp
qed

declare scoreAtLeast.simps [simp del]

function scoreAtMost :: "board \<Rightarrow> int \<Rightarrow> bool \<Rightarrow> int \<Rightarrow> bool" where
  "scoreAtMost b depth isMaximizing k =
     (if checkWinner b = Some PlayerO then 10 - depth \<le> k
      else if checkWinner b = Some PlayerX then depth - 10 \<le> k
      else if isBoardFull b then 0 \<le> k
      else if isMaximizing then
        allOf (\<lambda>i. scoreAtMost (js_set b i (Mark PlayerO)) (depth + 1) False k)
          (filter (\<lambda>i. js_get b i = Null) searchOrder)
      else
        anyOf (\<lambda>i. scoreAtMost (js_set b i (Mark PlayerX)) (depth + 1) True k)
          (filter (\<lambda>i. js_get b i = Null) searchOrder))"
  by pat_completeness auto
termination
proof (relation "measure (\<lambda>(b, depth, isMaximizing, k). emptyCount b)")
  show "wf (measure (\<lambda>(b, depth, isMaximizing, k). emptyCount b))" by simp
next
  fix b :: board and depth :: int and isMaximizing :: bool and k :: int and i :: nat
  assume "i \<in> set (filter (\<lambda>i. js_get b i = Null) searchOrder)"
  then have "Suc (emptyCount (js_set b i (Mark PlayerO))) = emptyCount b"
    by (intro emptyCount_js_set) simp_all
  then show "((js_set b i (Mark PlayerO), depth + 1, False, k), b, depth, isMaximizing, k)
      \<in> measure (\<lambda>(b, depth, isMaximizing, k). emptyCount b)" by simp
next
  fix b :: board and depth :: int and isMaximizing :: bool and k :: int and i :: nat
  assume "i \<in> set (filter (\<lambda>i. js_get b i = Null) searchOrder)"
  then have "Suc (emptyCount (js_set b i (Mark PlayerX))) = emptyCount b"
    by (intro emptyCount_js_set) simp_all
  then show "((js_set b i (Mark PlayerX), depth + 1, True, k), b, depth, isMaximizing, k)
      \<in> measure (\<lambda>(b, depth, isMaximizing, k). emptyCount b)" by simp
qed

declare scoreAtMost.simps [simp del]

definition allO :: "board \<Rightarrow> int \<Rightarrow> int \<Rightarrow> nat list \<Rightarrow> bool" where
  "allO b depth k cands =
     allOf (\<lambda>i. scoreAtMost (js_set b i (Mark PlayerO)) (depth + 1) False k)
       (filter (\<lambda>i. js_get b i = Null) cands)"

definition anyX :: "board \<Rightarrow> int \<Rightarrow> int \<Rightarrow> nat list \<Rightarrow> bool" where
  "anyX b depth k cands =
     anyOf (\<lambda>i. scoreAtMost (js_set b i (Mark PlayerX)) (depth + 1) True k)
       (filter (\<lambda>i. js_get b i = Null) cands)"

definition anyO :: "board \<Rightarrow> int \<Rightarrow> int \<Rightarrow> nat list \<Rightarrow> bool" where
  "anyO b depth k cands =
     anyOf (\<lambda>i. scoreAtLeast (js_set b i (Mark PlayerO)) (depth + 1) False k)
       (filter (\<lambda>i. js_get b i = Null) cands)"

definition allX :: "board \<Rightarrow> int \<Rightarrow> int \<Rightarrow> nat list \<Rightarrow> bool" where
  "allX b depth k cands =
     allOf (\<lambda>i. scoreAtLeast (js_set b i (Mark PlayerX)) (depth + 1) True k)
       (filter (\<lambda>i. js_get b i = Null) cands)"

section \<open>Optimal play on both sides\<close>

text \<open>
  The program only selects moves for O. A move of X is optimal when it puts X's mark on
  an empty cell and no other empty cell gives a smaller score, the position being scored
  as \<open>getBestMove\<close> scores O's candidates, with the roles exchanged.
\<close>

definition isBestHumanMove :: "board \<Rightarrow> nat \<Rightarrow> bool" where
  "isBestHumanMove b i =
     (i < 9 \<and> js_get b i = Null
      \<and> list_all (\<lambda>j. js_get b j = Null \<longrightarrow>
             minimax (js_set b i (Mark PlayerX)) 0 True
               \<le> minimax (js_set b j (Mark PlayerX)) 0 True) [0..<9])"

text \<open>
  A game in which X clicks the given cells in turn, each of them an optimal move, and
  the computer answers each click through its effect. The result is \<open>None\<close> when a
  click is not an optimal move of X in a running game.
\<close>

fun optimalPlay :: "nat \<Rightarrow> nat list \<Rightarrow> session \<Rightarrow> session option" where
  "optimalPlay rnd [] s = Some s"
| "optimalPlay rnd (i # cells) s =
     (if gameState s = Playing \<and> currentPlayer s = PlayerX \<and> isBestHumanMove (board s) i
      then optimalPlay rnd cells (computerEffect rnd (handleCellClick_computer i s))
      else None)"

text \<open>
  Proof devices: what has to hold of candidate \<open>i\<close> for \<open>m\<close> to be the index
  \<open>getBestMove\<close> returns, or the first optimal move of X, with \<open>k\<close> the score of \<open>m\<close>.
\<close>

definition maxCandidateOK :: "board \<Rightarrow> nat \<Rightarrow> int \<Rightarrow> nat \<Rightarrow> bool" where
  "maxCandidateOK b m k i =
     (if js_get b i = Null
      then (if i < m then scoreAtMost (js_set b i (Mark PlayerO)) 0 False (k - 1)
            else if i = m then scoreAtLeast (js_set b i (Mark PlayerO)) 0 False k
            else scoreAtMost (js_set b i (Mark PlayerO)) 0 False k)
      else i \<noteq> m)"

definition minCandidateOK :: "board \<Rightarrow> nat \<Rightarrow> int \<Rightarrow> nat \<Rightarrow> bool" where
  "minCandidateOK b m k i =
     (if js_get b i = Null
      then (if i < m then scoreAtLeast (js_set b i (Mark PlayerX)) 0 True (k + 1)
            else if i = m then scoreAtMost (js_set b i (Mark PlayerX)) 0 True k
            else scoreAtLeast (js_set b i (Mark PlayerX)) 0 True k)
      else i \<noteq> m)"

section \<open>The winner is the mark of the first completed line\<close>

lemma checkWinner_loop_step:
  "checkWinner_loop b (l # ls) =
     (if \<exists>q. lineHeldBy b q l then Some (THE q. lineHeldBy b q l)
      else checkWinner_loop b ls)"
proof (cases l)
  case (fields a b' c)
  show ?thesis
  proof (cases "js_get b a")
    case (Mark p)
    then show ?thesis using fields by auto
  qed (use fields in auto)
qed

lemma lineHeldBy_unique: "lineHeldBy b p l \<Longrightarrow> lineHeldBy b q l \<Longrightarrow> p = q"
  by (cases l) auto

lemma checkWinner_loop_Some:
  "checkWinner_loop b ls = Some p \<longleftrightarrow>
     (\<exists>k<length ls. lineHeldBy b p (ls ! k) \<and> (\<forall>j<k. \<forall>q. \<not> lineHeldBy b q (ls ! j)))"
proof (induction ls)
  case Nil
  then show ?case by simp
next
  case (Cons l ls)
  show ?case
  proof (cases "\<exists>q. lineHeldBy b q l")
    case True
    then obtain q where q: "lineHeldBy b q l" by blast
    then have the: "(THE q. lineHeldBy b q l) = q"
      by (blast intro: the_equality lineHeldBy_unique)
    have "checkWinner_loop b (l # ls) = Some q"
      using True the by (simp only: checkWinner_loop_step if_True)
    moreover have "(\<exists>k<length (l # ls). lineHeldBy b p ((l # ls) ! k) \<and>
        (\<forall>j<k. \<forall>q. \<not> lineHeldBy b q ((l # ls) ! j))) \<longleftrightarrow> p = q"
    proof
      assume "\<exists>k<length (l # ls). lineHeldBy b p ((l # ls) ! k) \<and>
        (\<forall>j<k. \<forall>q. \<not> lineHeldBy b q ((l # ls) ! j))"
      then obtain k where k: "lineHeldBy b p ((l # ls) ! k)"
        "\<forall>j<k. \<forall>q. \<not> lineHeldBy b q ((l # ls) ! j)" by blast
      have "k = 0"
      proof (rule ccontr)
        assume "k \<noteq> 0"
        then have "\<not> lineHeldBy b q ((l # ls) ! 0)" using k(2) by blast
        then show False using q by simp
      qed
      then show "p = q" using k(1) q lineHeldBy_unique by simp
    next
      assume "p = q"
      then have "lineHeldBy b p ((l # ls) ! 0) \<and> (\<forall>j<0. \<forall>q. \<not> lineHeldBy b q ((l # ls) ! j))"
        using q by simp
      then show "\<exists>k<length (l # ls). lineHeldBy b p ((l # ls) ! k) \<and>
        (\<forall>j<k. \<forall>q. \<not> lineHeldBy b q ((l # ls) ! j))" by (intro exI[of _ 0]) simp
    qed
    ultimately show ?thesis by auto
  next
    case False
    then have step: "checkWinner_loop b (l # ls) = checkWinner_loop b ls"
      by (simp only: checkWinner_loop_step if_False)
    have "(\<exists>k<length (l # ls). lineHeldBy b p ((l # ls) ! k) \<and>
        (\<forall>j<k. \<forall>q. \<not> lineHeldBy b q ((l # ls) ! j))) \<longleftrightarrow>
      (\<exists>k<length ls. lineHeldBy b p (ls ! k) \<and> (\<forall>j<k. \<forall>q. \<not> lineHeldBy b q (ls ! j)))"
      (is "?L \<longleftrightarrow> ?R")
    proof
      assume ?L
      then obtain k where k: "k < length (l # ls)" "lineHeldBy b p ((l # ls) ! k)"
        "\<forall>j<k. \<forall>q. \<not> lineHeldBy b q ((l # ls) ! j)" by blast
      from k(2) False obtain k' where k': "k = Suc k'" by (cases k) auto
      have "\<forall>j<k'. \<forall>q. \<not> lineHeldBy b q (ls ! j)"
      proof (intro allI impI)
        fix j q assume "j < k'"
        then have "Suc j < k" using k' by simp
        then have "\<not> lineHeldBy b q ((l # ls) ! Suc j)" using k(3) by blast
        then show "\<not> lineHeldBy b q (ls ! j)" by simp
      qed
      then show ?R using k(1,2) k' by auto
    next
      assume ?R
      then obtain k where k: "k < length ls" "lineHeldBy b p (ls ! k)"
        "\<forall>j<k. \<forall>q. \<not> lineHeldBy b q (ls ! j)" by blast
      have "\<forall>j<Suc k. \<forall>q. \<not> lineHeldBy b q ((l # ls) ! j)"
      proof (intro allI impI)
        fix j q assume "j < Suc k"
        then show "\<not> lineHeldBy b q ((l # ls) ! j)"
          using False k(3) by (cases j) auto
      qed
      then show ?L using k(1,2) by (intro exI[of _ "Suc k"]) simp
    qed
    then show ?thesis using step Cons.IH by simp
  qed
qed

lemma checkWinner_loop_None:
  "checkWinner_loop b ls = None \<longleftrightarrow> (\<forall>k<length ls. \<forall>q. \<not> lineHeldBy b q (ls ! k))"
proof (induction ls)
  case Nil
  then show ?case by simp
next
  case (Cons l ls)
  have "(\<forall>k<length (l # ls). \<forall>q. \<not> lineHeldBy b q ((l # ls) ! k)) \<longleftrightarrow>
      (\<forall>q. \<not> lineHeldBy b q l) \<and> (\<forall>k<length ls. \<forall>q. \<not> lineHeldBy b q (ls ! k))"
    by (auto simp: nth_Cons split: nat.splits)
  then show ?case using Cons.IH by (simp only: checkWinner_loop_step) auto
qed

text \<open>
  C6. The table lists the three rows, then the three columns, then the two diagonals.
  \<open>checkWinner\<close> returns a mark exactly when some line is held by that mark and no
  earlier line of the table is held by anyone, and returns nothing exactly when no line
  is held. It is a total function: a board with several completed lines has a result
  like any other.
\<close>

theorem checkWinner_first_line:
  "winningCombinations =
      map (\<lambda>r. (3 * r, 3 * r + 1, 3 * r + 2)) [0..<3]
      @ map (\<lambda>c. (c, c + 3, c + 6)) [0..<3]
      @ [(0, 4, 8), (2, 4, 6)]
   \<and> (checkWinner b = Some p \<longleftrightarrow>
        (\<exists>k<8. lineHeldBy b p (winningCombinations ! k)
               \<and> (\<forall>j<k. \<forall>q. \<not> lineHeldBy b q (winningCombinations ! j))))
   \<and> (checkWinner b = None \<longleftrightarrow>
        (\<forall>k<8. \<forall>q. \<not> lineHeldBy b q (winningCombinations ! k)))"
proof -
  have len: "length winningCombinations = 8" by (simp add: winningCombinations_def)
  have "winningCombinations =
      map (\<lambda>r. (3 * r, 3 * r + 1, 3 * r + 2)) [0..<3]
      @ map (\<lambda>c. (c, c + 3, c + 6)) [0..<3]
      @ [(0, 4, 8), (2, 4, 6)]"
    by (simp add: winningCombinations_def upt_rec)
  then show ?thesis
    using checkWinner_loop_Some[of b winningCombinations p]
      checkWinner_loop_None[of b winningCombinations] len
    by (simp only: checkWinner_def)
qed

text \<open>A board with two completed lines: the earlier one in the table decides.\<close>

theorem checkWinner_first_line_witness:
  "checkWinner [Mark PlayerO, Null, Null,
                Mark PlayerX, Mark PlayerX, Mark PlayerX,
                Mark PlayerO, Mark PlayerO, Mark PlayerO] = Some PlayerX
   \<and> lineHeldBy [Mark PlayerO, Null, Null,
                Mark PlayerX, Mark PlayerX, Mark PlayerX,
                Mark PlayerO, Mark PlayerO, Mark PlayerO] PlayerO (winningCombinations ! 2)"
proof -
  let ?b = "[Mark PlayerO, Null, Null,
             Mark PlayerX, Mark PlayerX, Mark PlayerX,
             Mark PlayerO, Mark PlayerO, Mark PlayerO]"
  have first: "lineHeldBy ?b PlayerX (winningCombinations ! 1)"
    by (simp add: winningCombinations_def js_get_def)
  have none: "\<forall>j<1. \<forall>q. \<not> lineHeldBy ?b q (winningCombinations ! j)"
    by (simp add: winningCombinations_def js_get_def)
  have third: "lineHeldBy ?b PlayerO (winningCombinations ! 2)"
    by (simp add: winningCombinations_def js_get_def)
  have "\<exists>k<8. lineHeldBy ?b PlayerX (winningCombinations ! k)
       \<and> (\<forall>j<k. \<forall>q. \<not> lineHeldBy ?b q (winningCombinations ! j))"
    using first none by (intro exI[of _ 1]) simp
  then have "checkWinner ?b = Some PlayerX"
    using checkWinner_first_line[of ?b PlayerX] by blast
  then show ?thesis using third by simp
qed

section \<open>Relabelling the marks\<close>

lemma swapCell_eq_iff: "swapCell c = swapCell c' \<longleftrightarrow> c = c'"
proof (cases c; cases c')
  fix p q assume "c = Mark p" "c' = Mark q"
  then show ?thesis by (cases p; cases q) simp_all
qed simp_all

lemma swapCell_Null: "swapCell c = Null \<longleftrightarrow> c = Null"
  by (cases c) simp_all

lemma Mark_swapPlayer_eq: "Mark (swapPlayer p) = swapCell c \<longleftrightarrow> Mark p = c"
  using swapCell_eq_iff[of "Mark p" c] by simp

lemma mark_of_swapCell:
  "(case swapCell c of Mark p \<Rightarrow> Some p | _ \<Rightarrow> None)
     = map_option swapPlayer (case c of Mark p \<Rightarrow> Some p | _ \<Rightarrow> None)"
  by (cases c) simp_all

lemma js_get_swapMarks: "js_get (swapMarks b) i = swapCell (js_get b i)"
  by (simp add: js_get_def swapMarks_def)

lemma js_set_swapMarks: "js_set (swapMarks b) i (swapCell v) = swapMarks (js_set b i v)"
  by (simp add: js_set_def swapMarks_def map_update)

lemma checkWinner_loop_swapMarks:
  "checkWinner_loop (swapMarks b) ls = map_option swapPlayer (checkWinner_loop b ls)"
proof (induction ls)
  case Nil
  then show ?case by simp
next
  case (Cons l ls)
  obtain a b' c where l: "l = (a, b', c)" by (cases l)
  show ?case
  proof (cases "js_get b a")
    case (Mark p)
    then show ?thesis using Cons l
      by (auto simp add: js_get_swapMarks Mark_swapPlayer_eq mark_of_swapCell)
  qed (use Cons l in \<open>simp_all add: js_get_swapMarks\<close>)
qed

lemma checkWinner_swapMarks:
  "checkWinner (swapMarks b) = map_option swapPlayer (checkWinner b)"
  by (simp add: checkWinner_def checkWinner_loop_swapMarks)

lemma isBoardFull_swapMarks: "isBoardFull (swapMarks b) = isBoardFull b"
  by (simp add: isBoardFull_def swapMarks_def list_all_iff swapCell_Null)

lemma negate_negate: "negate (negate s) = s"
  by (cases s) simp_all

lemma negate_min: "negate (min a b) = max (negate a) (negate b)"
  by (cases a; cases b) (simp_all add: min_def max_def)

lemma negate_max: "negate (max a b) = min (negate a) (negate b)"
  by (cases a; cases b) (simp_all add: min_def max_def)

lemma foldl_max_negate:
  "(\<And>i. i \<in> set xs \<Longrightarrow> P i \<Longrightarrow> g i = negate (f i)) \<Longrightarrow>
   foldl (\<lambda>best i. if P i then min (g i) best else best) (negate a) xs
     = negate (foldl (\<lambda>best i. if P i then max (f i) best else best) a xs)"
proof (induction xs arbitrary: a)
  case Nil
  then show ?case by simp
next
  case (Cons x xs)
  have "foldl (\<lambda>best i. if P i then min (g i) best else best) (negate a) (x # xs)
      = foldl (\<lambda>best i. if P i then min (g i) best else best)
          (negate (if P x then max (f x) a else a)) xs"
    using Cons.prems[of x] by (simp add: negate_max)
  also have "\<dots> = negate (foldl (\<lambda>best i. if P i then max (f i) best else best)
          (if P x then max (f x) a else a) xs)"
    using Cons.prems by (intro Cons.IH) simp_all
  finally show ?case by simp
qed

lemma foldl_min_negate:
  "(\<And>i. i \<in> set xs \<Longrightarrow> P i \<Longrightarrow> g i = negate (f i)) \<Longrightarrow>
   foldl (\<lambda>best i. if P i then max (g i) best else best) (negate a) xs
     = negate (foldl (\<lambda>best i. if P i then min (f i) best else best) a xs)"
proof (induction xs arbitrary: a)
  case Nil
  then show ?case by simp
next
  case (Cons x xs)
  have "foldl (\<lambda>best i. if P i then max (g i) best else best) (negate a) (x # xs)
      = foldl (\<lambda>best i. if P i then max (g i) best else best)
          (negate (if P x then min (f x) a else a)) xs"
    using Cons.prems[of x] by (simp add: negate_min)
  also have "\<dots> = negate (foldl (\<lambda>best i. if P i then min (f i) best else best)
          (if P x then min (f x) a else a) xs)"
    using Cons.prems by (intro Cons.IH) simp_all
  finally show ?case by simp
qed

lemma minimax_swapMarks:
  "minimax (swapMarks b) depth (\<not> isMaximizing) = negate (minimax b depth isMaximizing)"
proof (induction b depth isMaximizing rule: minimax.induct)
  case (1 b depth isMaximizing)
  show ?case
  proof (cases "checkWinner b")
    case (Some p)
    then show ?thesis
      by (cases p) (simp_all add: minimax.simps[of b] minimax.simps[of "swapMarks b"]
          checkWinner_swapMarks)
  next
    case None
    show ?thesis
    proof (cases "isBoardFull b")
      case True
      then show ?thesis using None
        by (simp add: minimax.simps[of b] minimax.simps[of "swapMarks b"]
            checkWinner_swapMarks isBoardFull_swapMarks)
    next
      case False
      show ?thesis
      proof (cases isMaximizing)
        case True
        have ih: "\<And>i. i \<in> set [0..<9] \<Longrightarrow> js_get b i = Null \<Longrightarrow>
            minimax (js_set (swapMarks b) i (Mark PlayerX)) (depth + 1) True
              = negate (minimax (js_set b i (Mark PlayerO)) (depth + 1) False)"
          using "1.IH"(1)[OF _ _ _ True] None False js_set_swapMarks[of b _ "Mark PlayerO"]
          by simp
        have "minimax (swapMarks b) depth False
            = foldl (\<lambda>best i. if js_get b i = Null
                 then min (minimax (js_set (swapMarks b) i (Mark PlayerX)) (depth + 1) True) best
                 else best) (negate NegInf) [0..<9]"
          using None False
          by (simp add: minimax.simps[of "swapMarks b"] checkWinner_swapMarks
              isBoardFull_swapMarks js_get_swapMarks swapCell_Null)
        also have "\<dots> = negate (foldl (\<lambda>best i. if js_get b i = Null
                 then max (minimax (js_set b i (Mark PlayerO)) (depth + 1) False) best
                 else best) NegInf [0..<9])"
          by (rule foldl_max_negate) (rule ih)
        also have "\<dots> = negate (minimax b depth True)"
          using None False by (simp add: minimax.simps[of b])
        finally show ?thesis using True by simp
      next
        case mx: False
        have ih: "\<And>i. i \<in> set [0..<9] \<Longrightarrow> js_get b i = Null \<Longrightarrow>
            minimax (js_set (swapMarks b) i (Mark PlayerO)) (depth + 1) False
              = negate (minimax (js_set b i (Mark PlayerX)) (depth + 1) True)"
          using "1.IH"(2)[OF _ _ _ mx] None False js_set_swapMarks[of b _ "Mark PlayerX"]
          by simp
        have "minimax (swapMarks b) depth True
            = foldl (\<lambda>best i. if js_get b i = Null
                 then max (minimax (js_set (swapMarks b) i (Mark PlayerO)) (depth + 1) False) best
                 else best) (negate PosInf) [0..<9]"
          using None False
          by (simp add: minimax.simps[of "swapMarks b"] checkWinner_swapMarks
              isBoardFull_swapMarks js_get_swapMarks swapCell_Null)
        also have "\<dots> = negate (foldl (\<lambda>best i. if js_get b i = Null
                 then min (minimax (js_set b i (Mark PlayerX)) (depth + 1) True) best
                 else best) PosInf [0..<9])"
          by (rule foldl_min_negate) (rule ih)
        also have "\<dots> = negate (minimax b depth False)"
          using None False by (simp add: minimax.simps[of b])
        finally show ?thesis using mx by simp
      qed
    qed
  qed
qed

text \<open>
  C7. Relabel every O as X and every X as O, give the move to the other role, and negate
  the score: the result is the score of the original board, at every depth.
\<close>

theorem minimax_relabel_symmetry:
  "negate (minimax (swapMarks b) depth (\<not> isMaximizing)) = minimax b depth isMaximizing"
  by (simp add: minimax_swapMarks negate_negate)

section \<open>Empty cells\<close>

lemma getEmptyCells_eq:
  "getEmptyCells b = map int (filter (\<lambda>i. b ! i = Null) [0..<length b])"
proof (induction b rule: rev_induct)
  case Nil
  then show ?case by (simp add: getEmptyCells_def)
next
  case (snoc c b)
  have filt: "filter (\<lambda>i. (b @ [c]) ! i = Null) [0..<length b]
      = filter (\<lambda>i. b ! i = Null) [0..<length b]"
    by (rule filter_cong) (simp_all add: nth_append)
  have "getEmptyCells (b @ [c])
      = getEmptyCells b @ (if c = Null then [int (length b)] else [])"
    by (simp add: getEmptyCells_def)
  then show ?case using snoc filt by simp
qed

lemma set_getEmptyCells:
  "set (getEmptyCells b) = int ` {i. i < length b \<and> b ! i = Null}"
  by (auto simp: getEmptyCells_eq)

lemma length_filter_nth:
  "length (filter (\<lambda>i. P (b ! i)) [0..<length b]) = length (filter P b)"
proof (induction b rule: rev_induct)
  case Nil
  then show ?case by simp
next
  case (snoc c b)
  have "filter (\<lambda>i. P ((b @ [c]) ! i)) [0..<length b]
      = filter (\<lambda>i. P (b ! i)) [0..<length b]"
    by (rule filter_cong) (simp_all add: nth_append)
  then show ?case using snoc by simp
qed

lemma length_getEmptyCells: "length (getEmptyCells b) = emptyCount b"
  using length_filter_nth[of "\<lambda>c. c = Null" b]
  by (simp add: getEmptyCells_eq emptyCount_def)

lemma emptyCount_le_length: "emptyCount b \<le> length b"
  by (simp add: emptyCount_def)

section \<open>The search is total\<close>

lemma foldl_fuel_max:
  "(\<And>i. i \<in> set xs \<Longrightarrow> P i \<Longrightarrow> g i = Some (f i)) \<Longrightarrow>
   foldl (\<lambda>best i. if P i
            then (case g i of None \<Rightarrow> None | Some s \<Rightarrow> map_option (max s) best)
            else best) (Some a) xs
     = Some (foldl (\<lambda>best i. if P i then max (f i) best else best) a xs)"
proof (induction xs arbitrary: a)
  case Nil
  then show ?case by simp
next
  case (Cons x xs)
  have step: "(if P x then (case g x of None \<Rightarrow> None | Some s \<Rightarrow> map_option (max s) (Some a))
               else Some a) = Some (if P x then max (f x) a else a)"
    using Cons.prems[of x] by simp
  have "foldl (\<lambda>best i. if P i
            then (case g i of None \<Rightarrow> None | Some s \<Rightarrow> map_option (max s) best)
            else best) (Some (if P x then max (f x) a else a)) xs
     = Some (foldl (\<lambda>best i. if P i then max (f i) best else best)
              (if P x then max (f x) a else a) xs)"
    using Cons.prems by (intro Cons.IH) simp_all
  then show ?case using step by simp
qed

lemma foldl_fuel_min:
  "(\<And>i. i \<in> set xs \<Longrightarrow> P i \<Longrightarrow> g i = Some (f i)) \<Longrightarrow>
   foldl (\<lambda>best i. if P i
            then (case g i of None \<Rightarrow> None | Some s \<Rightarrow> map_option (min s) best)
            else best) (Some a) xs
     = Some (foldl (\<lambda>best i. if P i then min (f i) best else best) a xs)"
proof (induction xs arbitrary: a)
  case Nil
  then show ?case by simp
next
  case (Cons x xs)
  have step: "(if P x then (case g x of None \<Rightarrow> None | Some s \<Rightarrow> map_option (min s) (Some a))
               else Some a) = Some (if P x then min (f x) a else a)"
    using Cons.prems[of x] by simp
  have "foldl (\<lambda>best i. if P i
            then (case g i of None \<Rightarrow> None | Some s \<Rightarrow> map_option (min s) best)
            else best) (Some (if P x then min (f x) a else a)) xs
     = Some (foldl (\<lambda>best i. if P i then min (f i) best else best)
              (if P x then min (f x) a else a) xs)"
    using Cons.prems by (intro Cons.IH) simp_all
  then show ?case using step by simp
qed

lemma minimax_fuel_enough:
  "emptyCount b < fuel \<Longrightarrow> minimax_fuel fuel b depth isMaximizing = Some (minimax b depth isMaximizing)"
proof (induction fuel arbitrary: b depth isMaximizing)
  case 0
  then show ?case by simp
next
  case (Suc fuel)
  have childO: "\<And>i. js_get b i = Null \<Longrightarrow>
      minimax_fuel fuel (js_set b i (Mark PlayerO)) (depth + 1) False
        = Some (minimax (js_set b i (Mark PlayerO)) (depth + 1) False)"
  proof -
    fix i assume "js_get b i = Null"
    then have "Suc (emptyCount (js_set b i (Mark PlayerO))) = emptyCount b"
      by (rule emptyCount_js_set) simp
    then have "emptyCount (js_set b i (Mark PlayerO)) < fuel" using Suc.prems by simp
    then show "minimax_fuel fuel (js_set b i (Mark PlayerO)) (depth + 1) False
        = Some (minimax (js_set b i (Mark PlayerO)) (depth + 1) False)" by (rule Suc.IH)
  qed
  have childX: "\<And>i. js_get b i = Null \<Longrightarrow>
      minimax_fuel fuel (js_set b i (Mark PlayerX)) (depth + 1) True
        = Some (minimax (js_set b i (Mark PlayerX)) (depth + 1) True)"
  proof -
    fix i assume "js_get b i = Null"
    then have "Suc (emptyCount (js_set b i (Mark PlayerX))) = emptyCount b"
      by (rule emptyCount_js_set) simp
    then have "emptyCount (js_set b i (Mark PlayerX)) < fuel" using Suc.prems by simp
    then show "minimax_fuel fuel (js_set b i (Mark PlayerX)) (depth + 1) True
        = Some (minimax (js_set b i (Mark PlayerX)) (depth + 1) True)" by (rule Suc.IH)
  qed
  show ?case
    by (simp add: minimax.simps[of b] foldl_fuel_max[OF childO] foldl_fuel_min[OF childX])
qed

text \<open>
  C10. Every recursive call of the search is on a board with one empty cell fewer, a
  board of 9 cells has at most 9 empty cells, and a budget of one more call than there
  are empty cells is enough for the search to return its result.
\<close>

theorem minimax_terminates:
  "(\<forall>i p. js_get b i = Null \<longrightarrow>
       length (getEmptyCells (js_set b i (Mark p))) < length (getEmptyCells b))
   \<and> (length b = 9 \<longrightarrow> length (getEmptyCells b) \<le> 9)
   \<and> (\<forall>fuel > length (getEmptyCells b).
        minimax_fuel fuel b depth isMaximizing = Some (minimax b depth isMaximizing))"
proof (intro conjI allI impI)
  fix i p assume "js_get b i = Null"
  then have "Suc (emptyCount (js_set b i (Mark p))) = emptyCount b"
    by (rule emptyCount_js_set) simp
  then show "length (getEmptyCells (js_set b i (Mark p))) < length (getEmptyCells b)"
    by (simp add: length_getEmptyCells)
next
  assume "length b = 9"
  then show "length (getEmptyCells b) \<le> 9"
    using emptyCount_le_length[of b] by (simp add: length_getEmptyCells)
next
  fix fuel assume "length (getEmptyCells b) < fuel"
  then show "minimax_fuel fuel b depth isMaximizing = Some (minimax b depth isMaximizing)"
    by (simp add: length_getEmptyCells minimax_fuel_enough)
qed

theorem minimax_terminates_witness:
  "js_get emptyBoard 4 = Null
   \<and> length (getEmptyCells (js_set emptyBoard 4 (Mark PlayerX))) < length (getEmptyCells emptyBoard)
   \<and> length emptyBoard = 9 \<and> length (getEmptyCells emptyBoard) \<le> 9
   \<and> length (getEmptyCells emptyBoard) < 10
   \<and> minimax_fuel 10 emptyBoard 0 False = Some (minimax emptyBoard 0 False)"
proof -
  have a: "js_get emptyBoard 4 = Null" by (simp add: emptyBoard_def js_get_def)
  have b: "length emptyBoard = 9" by (simp add: emptyBoard_def)
  have c: "length (getEmptyCells emptyBoard) < 10"
    by (simp add: length_getEmptyCells emptyBoard_def emptyCount_def)
  show ?thesis
    using minimax_terminates[of emptyBoard 0 False] a b c by blast
qed

section \<open>The loops of the search as maximum and minimum\<close>

lemma score_le_PosInf: "s \<le> PosInf"
  by (cases s) simp_all

lemma Max_insert_max:
  "finite S \<Longrightarrow> Max (insert (max y a) S) = Max (insert a (insert y (S::'a::linorder set)))"
  by (cases "S = {}") (simp_all add: max.assoc max.commute max.left_commute)

lemma Min_insert_min:
  "finite S \<Longrightarrow> Min (insert (min y a) S) = Min (insert a (insert y (S::'a::linorder set)))"
  by (cases "S = {}") (simp_all add: min.assoc min.commute min.left_commute)

lemma foldl_max_Max:
  "foldl (\<lambda>best i. if P i then max (f i) best else best) a xs
     = Max (insert a (f ` {i \<in> set xs. P i}))"
proof (induction xs arbitrary: a)
  case Nil
  then show ?case by simp
next
  case (Cons x xs)
  let ?S = "f ` {i \<in> set xs. P i}"
  have fin: "finite ?S" by simp
  show ?case
  proof (cases "P x")
    case True
    have set_eq: "f ` {i \<in> set (x # xs). P i} = insert (f x) ?S"
      using True by auto
    have "Max (insert (max (f x) a) ?S) = Max (insert a (insert (f x) ?S))"
      using fin by (rule Max_insert_max)
    then show ?thesis using True Cons.IH[of "max (f x) a"] set_eq by simp
  next
    case False
    have set_eq: "f ` {i \<in> set (x # xs). P i} = ?S"
      using False by auto
    show ?thesis using False Cons.IH[of a] set_eq by simp
  qed
qed

lemma foldl_min_Min:
  "foldl (\<lambda>best i. if P i then min (f i) best else best) a xs
     = Min (insert a (f ` {i \<in> set xs. P i}))"
proof (induction xs arbitrary: a)
  case Nil
  then show ?case by simp
next
  case (Cons x xs)
  let ?S = "f ` {i \<in> set xs. P i}"
  have fin: "finite ?S" by simp
  show ?case
  proof (cases "P x")
    case True
    have set_eq: "f ` {i \<in> set (x # xs). P i} = insert (f x) ?S"
      using True by auto
    have "Min (insert (min (f x) a) ?S) = Min (insert a (insert (f x) ?S))"
      using fin by (rule Min_insert_min)
    then show ?thesis using True Cons.IH[of "min (f x) a"] set_eq by simp
  next
    case False
    have set_eq: "f ` {i \<in> set (x # xs). P i} = ?S"
      using False by auto
    show ?thesis using False Cons.IH[of a] set_eq by simp
  qed
qed

lemma Max_insert_NegInf: "finite S \<Longrightarrow> S \<noteq> {} \<Longrightarrow> Max (insert NegInf S) = Max S"
  by (simp add: max_def)

lemma Min_insert_PosInf: "finite S \<Longrightarrow> S \<noteq> {} \<Longrightarrow> Min (insert PosInf S) = Min S"
  by (simp add: min_absorb2 score_le_PosInf)

text \<open>On a board of at most 9 cells the loop indices 0..8 reach every empty cell.\<close>

lemma empty_indices_upto_9:
  "length b \<le> 9 \<Longrightarrow>
   {i \<in> set [0..<9]. js_get b i = Null} = {i. i < length b \<and> b ! i = Null}"
  by (auto simp: js_get_def split: if_splits)

lemma not_full_has_empty:
  "\<not> isBoardFull b \<Longrightarrow> {i. i < length b \<and> b ! i = Null} \<noteq> {}"
  by (auto simp: isBoardFull_def list_all_iff in_set_conv_nth)

lemma image_getEmptyCells:
  "(\<lambda>i. F (nat i)) ` set (getEmptyCells b) = F ` {i. i < length b \<and> b ! i = Null}"
  by (auto simp: set_getEmptyCells image_iff)

lemma minimax_children_max:
  assumes "length b \<le> 9" "\<not> isBoardFull b"
  shows "foldl (\<lambda>best i. if js_get b i = Null then max (F i) best else best) NegInf [0..<9]
     = Max ((\<lambda>i. F (nat i)) ` set (getEmptyCells b))"
proof -
  let ?S = "F ` {i. i < length b \<and> b ! i = Null}"
  have "finite ?S" by simp
  moreover have "?S \<noteq> {}" using not_full_has_empty[OF assms(2)] by simp
  ultimately have "Max (insert NegInf ?S) = Max ?S" by (rule Max_insert_NegInf)
  then show ?thesis
    by (simp only: foldl_max_Max empty_indices_upto_9[OF assms(1)] image_getEmptyCells)
qed

lemma minimax_children_min:
  assumes "length b \<le> 9" "\<not> isBoardFull b"
  shows "foldl (\<lambda>best i. if js_get b i = Null then min (F i) best else best) PosInf [0..<9]
     = Min ((\<lambda>i. F (nat i)) ` set (getEmptyCells b))"
proof -
  let ?S = "F ` {i. i < length b \<and> b ! i = Null}"
  have "finite ?S" by simp
  moreover have "?S \<noteq> {}" using not_full_has_empty[OF assms(2)] by simp
  ultimately have "Min (insert PosInf ?S) = Min ?S" by (rule Min_insert_PosInf)
  then show ?thesis
    by (simp only: foldl_min_Min empty_indices_upto_9[OF assms(1)] image_getEmptyCells)
qed

text \<open>
  C1. On a board of 9 cells the score is \<open>10 - depth\<close> when O has won, \<open>depth - 10\<close>
  when X has won, 0 when the board is full with no winner, and otherwise the maximum
  (when O moves) or the minimum (when X moves) of the scores, at \<open>depth + 1\<close> and with
  the other player to move, of the boards that put the mover's mark on an empty cell,
  taken over every empty cell.
\<close>

theorem minimax_score:
  assumes "length b = 9"
  shows "minimax b depth isMaximizing =
     (if checkWinner b = Some PlayerO then Fin (10 - depth)
      else if checkWinner b = Some PlayerX then Fin (depth - 10)
      else if isBoardFull b then Fin 0
      else if isMaximizing then
        Max ((\<lambda>i. minimax (js_set b (nat i) (Mark PlayerO)) (depth + 1) False)
               ` set (getEmptyCells b))
      else
        Min ((\<lambda>i. minimax (js_set b (nat i) (Mark PlayerX)) (depth + 1) True)
               ` set (getEmptyCells b)))"
proof -
  have len: "length b \<le> 9" using assms by simp
  show ?thesis
  proof (cases "isBoardFull b")
    case True
    then show ?thesis by (simp add: minimax.simps[of b])
  next
    case False
    show ?thesis
      using minimax_children_max[OF len False,
          of "\<lambda>i. minimax (js_set b i (Mark PlayerO)) (depth + 1) False"]
        minimax_children_min[OF len False,
          of "\<lambda>i. minimax (js_set b i (Mark PlayerX)) (depth + 1) True"] False
      by (simp add: minimax.simps[of b])
  qed
qed

text \<open>
  X to move with cells 7 and 8 empty: taking 7 leads to a full board with no line,
  taking 8 lets O complete the middle column.
\<close>

theorem minimax_score_witness:
  "length [Mark PlayerX, Mark PlayerO, Mark PlayerX,
           Mark PlayerX, Mark PlayerO, Mark PlayerO,
           Mark PlayerO, Null, Null] = 9
   \<and> minimax [Mark PlayerX, Mark PlayerO, Mark PlayerX,
              Mark PlayerX, Mark PlayerO, Mark PlayerO,
              Mark PlayerO, Null, Null] 7 False = Fin 0"
proof -
  let ?b = "[Mark PlayerX, Mark PlayerO, Mark PlayerX,
             Mark PlayerX, Mark PlayerO, Mark PlayerO,
             Mark PlayerO, Null, Null]"
  have len: "length ?b = 9" by simp
  have cells: "getEmptyCells ?b = [7, 8]" by code_simp
  have nw: "checkWinner ?b = None" by code_simp
  have nf: "\<not> isBoardFull ?b" by code_simp
  have c7: "minimax (js_set ?b 7 (Mark PlayerX)) 8 True = Fin 0" by code_simp
  have c8: "minimax (js_set ?b 8 (Mark PlayerX)) 8 True = Fin 1" by code_simp
  have "minimax ?b 7 False = Min {Fin 0, Fin 1}"
    using minimax_score[OF len, of 7 False] nw nf c7 c8 by (simp add: cells)
  then show ?thesis using len by simp
qed

section \<open>The move selector\<close>

text \<open>The state of the loop of \<open>getBestMove\<close> after the indices below \<open>n\<close>.\<close>

lemma getBestMove_loop_invariant:
  fixes f :: "nat \<Rightarrow> score"
  assumes "foldl (\<lambda>(bestScore, bestMove) i.
                   if P i
                   then (let score = f i
                         in if score > bestScore then (score, int i)
                            else (bestScore, bestMove))
                   else (bestScore, bestMove))
            (NegInf, - 1) [0..<n] = (s, m)"
  shows "(\<forall>i<n. P i \<longrightarrow> f i \<le> s)
       \<and> ((m = - 1 \<and> s = NegInf)
          \<or> (\<exists>j<n. m = int j \<and> P j \<and> f j = s \<and> NegInf < s \<and> (\<forall>i<j. P i \<longrightarrow> f i < s)))"
  using assms
proof (induction n arbitrary: s m)
  case 0
  then show ?case by simp
next
  case (Suc n)
  let ?G = "\<lambda>(bestScore, bestMove) i.
                   if P i
                   then (let score = f i
                         in if score > bestScore then (score, int i)
                            else (bestScore, bestMove))
                   else (bestScore, bestMove)"
  obtain s0 m0 where prev: "foldl ?G (NegInf, - 1) [0..<n] = (s0, m0)"
    by (cases "foldl ?G (NegInf, - 1) [0..<n]")
  note ih = Suc.IH[OF prev]
  have step: "(s, m) = ?G (s0, m0) n"
    using Suc.prems prev by simp
  show ?case
  proof (cases "P n \<and> f n > s0")
    case True
    then have sm: "s = f n" "m = int n" using step by (simp_all add: Let_def)
    have le: "\<forall>i<Suc n. P i \<longrightarrow> f i \<le> s"
      using ih True sm by (auto simp: less_Suc_eq)
    have lt: "\<forall>i<n. P i \<longrightarrow> f i < s"
      using ih True sm by auto
    have "NegInf < s" using True sm
      by (metis less_eq_score.simps(1) order_le_less_trans)
    then show ?thesis using le lt sm True by auto
  next
    case False
    then have sm: "s = s0" "m = m0" using step by (auto simp: Let_def split: if_splits)
    have le: "\<forall>i<Suc n. P i \<longrightarrow> f i \<le> s"
      using ih False sm by (auto simp: less_Suc_eq)
    show ?thesis using le ih sm by (auto simp: less_Suc_eq)
  qed
qed

text \<open>
  When some candidate has a finite score, the result is the first candidate that has
  the largest score.
\<close>

lemma getBestMove_loop_first_max:
  fixes f :: "nat \<Rightarrow> score"
  assumes run: "foldl (\<lambda>(bestScore, bestMove) i.
                   if P i
                   then (let score = f i
                         in if score > bestScore then (score, int i)
                            else (bestScore, bestMove))
                   else (bestScore, bestMove))
            (NegInf, - 1) [0..<n] = (s, m)"
    and some: "\<exists>i<n. P i \<and> NegInf < f i"
  shows "\<exists>j<n. m = int j \<and> P j \<and> (\<forall>i<n. P i \<longrightarrow> f i \<le> f j) \<and> (\<forall>i<j. P i \<longrightarrow> f i < f j)"
proof -
  note inv = getBestMove_loop_invariant[OF run]
  from some obtain i where i: "i < n" "P i" "NegInf < f i" by blast
  then have "f i \<le> s" using inv by blast
  then have "s \<noteq> NegInf" using i(3) by auto
  then show ?thesis using inv by auto
qed

lemma length_js_set_in_range: "js_get b i = Null \<Longrightarrow> length (js_set b i v) = length b"
  by (auto simp: js_get_def js_set_def split: if_splits)

lemma empty_candidates_upto_9:
  assumes "length b \<le> 9" "\<not> isBoardFull b"
  shows "\<exists>i<9. js_get b i = Null"
proof -
  from not_full_has_empty[OF assms(2)] obtain i where "i < length b" "b ! i = Null" by blast
  then show ?thesis using assms(1) by (intro exI[of _ i]) (simp add: js_get_def)
qed

text \<open>On a board of at most 9 cells the score is an integer, never an infinity.\<close>

lemma minimax_finite:
  "length b \<le> 9 \<Longrightarrow> \<exists>v. minimax b depth isMaximizing = Fin v"
proof (induction b depth isMaximizing rule: minimax.induct)
  case (1 b depth isMaximizing)
  show ?case
  proof (cases "checkWinner b = Some PlayerO \<or> checkWinner b = Some PlayerX \<or> isBoardFull b")
    case True
    then show ?thesis by (auto simp: minimax.simps[of b])
  next
    case False
    then have nw: "checkWinner b \<noteq> Some PlayerO" "checkWinner b \<noteq> Some PlayerX"
      and nf: "\<not> isBoardFull b" by simp_all
    let ?P = "\<lambda>i. js_get b i = Null"
    have ne: "{i \<in> set [0..<9]. ?P i} \<noteq> {}"
      using empty_candidates_upto_9[OF "1.prems" nf] by auto
    show ?thesis
    proof (cases isMaximizing)
      case True
      let ?f = "\<lambda>i. minimax (js_set b i (Mark PlayerO)) (depth + 1) False"
      let ?S = "?f ` {i \<in> set [0..<9]. ?P i}"
      have fin: "finite ?S" "?S \<noteq> {}" using ne by simp_all
      have "minimax b depth isMaximizing = Max (insert NegInf ?S)"
        using nw nf True by (simp add: minimax.simps[of b] foldl_max_Max)
      also have "\<dots> = Max ?S" using fin by (rule Max_insert_NegInf)
      finally have "minimax b depth isMaximizing \<in> ?S" using Max_in[OF fin] by simp
      then obtain i where i: "i \<in> set [0..<9]" "?P i" "minimax b depth isMaximizing = ?f i"
        by auto
      have "length (js_set b i (Mark PlayerO)) \<le> 9"
        using i(2) "1.prems" by (simp add: length_js_set_in_range)
      then have "\<exists>v. ?f i = Fin v"
        using "1.IH"(1)[OF nw nf True i(1) i(2)] by simp
      then show ?thesis using i(3) by simp
    next
      case mn: False
      let ?f = "\<lambda>i. minimax (js_set b i (Mark PlayerX)) (depth + 1) True"
      let ?S = "?f ` {i \<in> set [0..<9]. ?P i}"
      have fin: "finite ?S" "?S \<noteq> {}" using ne by simp_all
      have "minimax b depth isMaximizing = Min (insert PosInf ?S)"
        using nw nf mn by (simp add: minimax.simps[of b] foldl_min_Min)
      also have "\<dots> = Min ?S" using fin by (rule Min_insert_PosInf)
      finally have "minimax b depth isMaximizing \<in> ?S" using Min_in[OF fin] by simp
      then obtain i where i: "i \<in> set [0..<9]" "?P i" "minimax b depth isMaximizing = ?f i"
        by auto
      have "length (js_set b i (Mark PlayerX)) \<le> 9"
        using i(2) "1.prems" by (simp add: length_js_set_in_range)
      then have "\<exists>v. ?f i = Fin v"
        using "1.IH"(2)[OF nw nf mn i(1) i(2)] by simp
      then show ?thesis using i(3) by simp
    qed
  qed
qed

lemma getBestMove_first_max:
  assumes len: "length b \<le> 9" and ne: "\<exists>i<9. js_get b i = Null"
  shows "\<exists>j<9. getBestMove b = int j \<and> js_get b j = Null
     \<and> (\<forall>i<9. js_get b i = Null \<longrightarrow>
            minimax (js_set b i (Mark PlayerO)) 0 False
              \<le> minimax (js_set b j (Mark PlayerO)) 0 False)
     \<and> (\<forall>i<j. js_get b i = Null \<longrightarrow>
            minimax (js_set b i (Mark PlayerO)) 0 False
              < minimax (js_set b j (Mark PlayerO)) 0 False)"
proof -
  let ?P = "\<lambda>i. js_get b i = Null"
  let ?f = "\<lambda>i. minimax (js_set b i (Mark PlayerO)) 0 False"
  let ?G = "\<lambda>(bestScore, bestMove) i.
                   if ?P i
                   then (let score = ?f i
                         in if score > bestScore then (score, int i)
                            else (bestScore, bestMove))
                   else (bestScore, bestMove)"
  obtain s m where run: "foldl ?G (NegInf, - 1) [0..<9] = (s, m)"
    by (cases "foldl ?G (NegInf, - 1) [0..<9]")
  have m: "getBestMove b = m" using run by (simp add: getBestMove_def)
  from ne obtain i where i: "i < 9" "?P i" by blast
  have "length (js_set b i (Mark PlayerO)) \<le> 9"
    using i(2) len by (simp add: length_js_set_in_range)
  then obtain v where "?f i = Fin v" using minimax_finite by blast
  then have "NegInf < ?f i" by (simp add: less_score_def)
  then have some: "\<exists>i<9. ?P i \<and> NegInf < ?f i" using i by blast
  show ?thesis
    using getBestMove_loop_first_max[of ?P ?f 9 s m, OF run some] m by simp
qed

text \<open>
  C2. On a board of 9 cells with an empty cell, \<open>getBestMove\<close> returns the index of an
  empty cell between 0 and 8, never \<open>- 1\<close>; no empty cell scores higher than the one
  returned, and every empty cell with the same score has an index at least as large.
\<close>

theorem getBestMove_valid:
  assumes "length b = 9" and "getEmptyCells b \<noteq> []"
  shows "0 \<le> getBestMove b \<and> getBestMove b < 9 \<and> getBestMove b \<noteq> - 1
     \<and> getBestMove b \<in> set (getEmptyCells b)
     \<and> b ! nat (getBestMove b) = Null
     \<and> (\<forall>i \<in> set (getEmptyCells b).
           minimax (js_set b (nat i) (Mark PlayerO)) 0 False
             \<le> minimax (js_set b (nat (getBestMove b)) (Mark PlayerO)) 0 False)
     \<and> (\<forall>i \<in> set (getEmptyCells b).
           minimax (js_set b (nat i) (Mark PlayerO)) 0 False
             = minimax (js_set b (nat (getBestMove b)) (Mark PlayerO)) 0 False
           \<longrightarrow> getBestMove b \<le> i)"
proof -
  let ?f = "\<lambda>i. minimax (js_set b i (Mark PlayerO)) 0 False"
  have len: "length b \<le> 9" using assms(1) by simp
  have cells: "set (getEmptyCells b) = int ` {i. i < 9 \<and> js_get b i = Null}"
    using assms(1) by (auto simp: set_getEmptyCells js_get_def)
  have "set (getEmptyCells b) \<noteq> {}" using assms(2) by simp
  then have ne: "\<exists>i<9. js_get b i = Null" using cells by auto
  from getBestMove_first_max[OF len ne] obtain j where j: "j < 9" "getBestMove b = int j"
    "js_get b j = Null" "\<forall>i<9. js_get b i = Null \<longrightarrow> ?f i \<le> ?f j"
    "\<forall>i<j. js_get b i = Null \<longrightarrow> ?f i < ?f j" by blast
  have nth: "b ! j = Null" using j(1,3) assms(1) by (simp add: js_get_def)
  have mem: "int j \<in> set (getEmptyCells b)" using j(1,3) cells by blast
  have best: "\<forall>i \<in> set (getEmptyCells b). ?f (nat i) \<le> ?f j"
    using j(4) cells by auto
  have first: "\<forall>i \<in> set (getEmptyCells b). ?f (nat i) = ?f j \<longrightarrow> int j \<le> i"
  proof (intro ballI impI)
    fix i assume i: "i \<in> set (getEmptyCells b)" and eq: "?f (nat i) = ?f j"
    from i cells obtain k where k: "i = int k" "k < 9" "js_get b k = Null" by auto
    have "\<not> k < j" using j(5) k(3) eq k(1) by auto
    then show "int j \<le> i" using k(1) by simp
  qed
  show ?thesis using j(1,2) nth mem best first by simp
qed

theorem getBestMove_valid_witness:
  "length [Mark PlayerX, Mark PlayerO, Mark PlayerX,
           Mark PlayerX, Mark PlayerO, Mark PlayerO,
           Null, Null, Mark PlayerX] = 9
   \<and> getEmptyCells [Mark PlayerX, Mark PlayerO, Mark PlayerX,
           Mark PlayerX, Mark PlayerO, Mark PlayerO,
           Null, Null, Mark PlayerX] = [6, 7]
   \<and> getBestMove [Mark PlayerX, Mark PlayerO, Mark PlayerX,
           Mark PlayerX, Mark PlayerO, Mark PlayerO,
           Null, Null, Mark PlayerX] = 7"
proof -
  let ?b = "[Mark PlayerX, Mark PlayerO, Mark PlayerX,
             Mark PlayerX, Mark PlayerO, Mark PlayerO,
             Null, Null, Mark PlayerX]"
  have len: "length ?b = 9" by simp
  have cells: "getEmptyCells ?b = [6, 7]" by code_simp
  have ne: "getEmptyCells ?b \<noteq> []" by (simp add: cells)
  have s6: "minimax (js_set ?b 6 (Mark PlayerO)) 0 False = Fin 0" by code_simp
  have s7: "minimax (js_set ?b 7 (Mark PlayerO)) 0 False = Fin 10" by code_simp
  have "getBestMove ?b \<in> {6, 7}"
    using getBestMove_valid[OF len ne] by (simp add: cells)
  moreover have "getBestMove ?b \<noteq> 6"
  proof
    assume six: "getBestMove ?b = 6"
    have "minimax (js_set ?b (nat 7) (Mark PlayerO)) 0 False
        \<le> minimax (js_set ?b (nat (getBestMove ?b)) (Mark PlayerO)) 0 False"
      using getBestMove_valid[OF len ne] by (simp add: cells)
    then show False using s6 s7 by (simp add: six)
  qed
  ultimately show ?thesis using len cells by simp
qed

section \<open>The moves of the session\<close>

lemma getBestMove_cases:
  "getBestMove b = - 1 \<or> (\<exists>j<9. getBestMove b = int j \<and> js_get b j = Null)"
proof -
  let ?P = "\<lambda>i. js_get b i = Null"
  let ?f = "\<lambda>i. minimax (js_set b i (Mark PlayerO)) 0 False"
  let ?G = "\<lambda>(bestScore, bestMove) i.
                   if ?P i
                   then (let score = ?f i
                         in if score > bestScore then (score, int i)
                            else (bestScore, bestMove))
                   else (bestScore, bestMove)"
  obtain s m where run: "foldl ?G (NegInf, - 1) [0..<9] = (s, m)"
    by (cases "foldl ?G (NegInf, - 1) [0..<9]")
  have m: "getBestMove b = m" using run by (simp add: getBestMove_def)
  show ?thesis using getBestMove_loop_invariant[of ?P ?f 9 s m, OF run] m by auto
qed

lemma computerMoveIndex_empty:
  assumes "getEmptyCells cb \<noteq> []"
  shows "computerMoveIndex rnd cb < length cb \<and> cb ! computerMoveIndex rnd cb = Null"
proof (cases "getBestMove cb = - 1")
  case True
  let ?k = "rnd mod length (getEmptyCells cb)"
  have "?k < length (getEmptyCells cb)" using assms by simp
  then have "getEmptyCells cb ! ?k \<in> set (getEmptyCells cb)" by (rule nth_mem)
  then obtain i where "getEmptyCells cb ! ?k = int i" "i < length cb" "cb ! i = Null"
    by (auto simp: set_getEmptyCells)
  then show ?thesis using True by (simp add: computerMoveIndex_def)
next
  case False
  then obtain j where j: "getBestMove cb = int j" "js_get cb j = Null"
    using getBestMove_cases[of cb] by blast
  then have "j < length cb \<and> cb ! j = Null"
    by (auto simp: js_get_def split: if_splits)
  then show ?thesis using False j(1) by (simp add: computerMoveIndex_def)
qed

lemma makeComputerMove_unfold:
  "getEmptyCells cb \<noteq> [] \<Longrightarrow>
   makeComputerMove rnd s cb =
     (case checkWinner (js_set cb (computerMoveIndex rnd cb) (Mark PlayerO)) of
        Some gameWinner \<Rightarrow>
          s\<lparr>board := js_set cb (computerMoveIndex rnd cb) (Mark PlayerO),
            winner := Some gameWinner, gameState := Won,
            stats := countWin gameWinner (stats s)\<rparr>
      | None \<Rightarrow>
          if isBoardFull (js_set cb (computerMoveIndex rnd cb) (Mark PlayerO))
          then s\<lparr>board := js_set cb (computerMoveIndex rnd cb) (Mark PlayerO),
                 gameState := Draw,
                 stats := (stats s)\<lparr>draws := draws (stats s) + 1\<rparr>\<rparr>
          else s\<lparr>board := js_set cb (computerMoveIndex rnd cb) (Mark PlayerO),
                 currentPlayer := PlayerX\<rparr>)"
  unfolding makeComputerMove_def computerMoveIndex_def Let_def by simp

lemma outcomeRecorded_handleCellClick:
  assumes "gameState s = Playing" "\<not> truthy (js_get (board s) index)"
  shows "board (handleCellClick index s) = js_set (board s) index (Mark (currentPlayer s))
     \<and> outcomeRecorded s (handleCellClick index s)"
  using assms
  by (cases "checkWinner (js_set (board s) index (Mark (currentPlayer s)))")
     (auto simp: handleCellClick_def outcomeRecorded_def countWin_def Let_def)

lemma outcomeRecorded_handleCellClick_computer:
  assumes "gameState s = Playing" "\<not> truthy (js_get (board s) index)"
    "currentPlayer s = PlayerX"
  shows "board (handleCellClick_computer index s) = js_set (board s) index (Mark PlayerX)
     \<and> outcomeRecorded s (handleCellClick_computer index s)"
  using assms
  by (cases "checkWinner (js_set (board s) index (Mark PlayerX))")
     (auto simp: handleCellClick_computer_def outcomeRecorded_def countWin_def Let_def)

lemma outcomeRecorded_makeComputerMove:
  assumes "gameState s = Playing" "getEmptyCells cb \<noteq> []"
  shows "board (makeComputerMove rnd s cb) = js_set cb (computerMoveIndex rnd cb) (Mark PlayerO)
     \<and> outcomeRecorded s (makeComputerMove rnd s cb)"
  using assms(1)
  by (cases "checkWinner (js_set cb (computerMoveIndex rnd cb) (Mark PlayerO))")
     (auto simp: makeComputerMove_unfold[OF assms(2)] outcomeRecorded_def countWin_def)

text \<open>
  C3. In a running game, after a move of either click handler or of the computer, a
  winner on the resulting board makes the game Won, names that winner and adds one to
  that winner's counter, whether or not the board is full; the game is Drawn exactly
  when the resulting board has no winner and is full, and then the draw counter grows
  by one.
\<close>

theorem win_before_draw:
  assumes "gameState s = Playing"
  shows "(\<not> truthy (js_get (board s) index) \<longrightarrow>
            board (handleCellClick index s) = js_set (board s) index (Mark (currentPlayer s))
            \<and> outcomeRecorded s (handleCellClick index s))
       \<and> (\<not> truthy (js_get (board s) index) \<and> currentPlayer s = PlayerX \<longrightarrow>
            board (handleCellClick_computer index s) = js_set (board s) index (Mark PlayerX)
            \<and> outcomeRecorded s (handleCellClick_computer index s))
       \<and> (getEmptyCells currentBoard \<noteq> [] \<longrightarrow>
            (\<exists>i. int i \<in> set (getEmptyCells currentBoard)
                 \<and> board (makeComputerMove rnd s currentBoard)
                     = js_set currentBoard i (Mark PlayerO))
            \<and> outcomeRecorded s (makeComputerMove rnd s currentBoard))"
proof (intro conjI impI)
  assume "getEmptyCells currentBoard \<noteq> []"
  then have "int (computerMoveIndex rnd currentBoard) \<in> set (getEmptyCells currentBoard)"
    using computerMoveIndex_empty[of currentBoard rnd] by (simp add: set_getEmptyCells)
  moreover have "board (makeComputerMove rnd s currentBoard)
      = js_set currentBoard (computerMoveIndex rnd currentBoard) (Mark PlayerO)"
    using outcomeRecorded_makeComputerMove[OF assms \<open>getEmptyCells currentBoard \<noteq> []\<close>]
    by simp
  ultimately show "\<exists>i. int i \<in> set (getEmptyCells currentBoard)
      \<and> board (makeComputerMove rnd s currentBoard) = js_set currentBoard i (Mark PlayerO)"
    by blast
qed (simp_all add: assms outcomeRecorded_handleCellClick
      outcomeRecorded_handleCellClick_computer outcomeRecorded_makeComputerMove)

text \<open>The last empty cell completes a diagonal for X: the full board is a win.\<close>

theorem win_before_draw_witness:
  "gameState \<lparr>board = [Mark PlayerX, Mark PlayerO, Mark PlayerX,
                       Mark PlayerO, Mark PlayerX, Mark PlayerO,
                       Mark PlayerO, Mark PlayerX, Null],
              currentPlayer = PlayerX, gameState = Playing, winner = None,
              stats = initialStats\<rparr> = Playing
   \<and> isBoardFull (board (handleCellClick 8
        \<lparr>board = [Mark PlayerX, Mark PlayerO, Mark PlayerX,
                  Mark PlayerO, Mark PlayerX, Mark PlayerO,
                  Mark PlayerO, Mark PlayerX, Null],
         currentPlayer = PlayerX, gameState = Playing, winner = None,
         stats = initialStats\<rparr>))
   \<and> gameState (handleCellClick 8
        \<lparr>board = [Mark PlayerX, Mark PlayerO, Mark PlayerX,
                  Mark PlayerO, Mark PlayerX, Mark PlayerO,
                  Mark PlayerO, Mark PlayerX, Null],
         currentPlayer = PlayerX, gameState = Playing, winner = None,
         stats = initialStats\<rparr>) = Won
   \<and> stats (handleCellClick 8
        \<lparr>board = [Mark PlayerX, Mark PlayerO, Mark PlayerX,
                  Mark PlayerO, Mark PlayerX, Mark PlayerO,
                  Mark PlayerO, Mark PlayerX, Null],
         currentPlayer = PlayerX, gameState = Playing, winner = None,
         stats = initialStats\<rparr>) = \<lparr>xWins = 1, oWins = 0, draws = 0\<rparr>"
proof -
  let ?s = "\<lparr>board = [Mark PlayerX, Mark PlayerO, Mark PlayerX,
                       Mark PlayerO, Mark PlayerX, Mark PlayerO,
                       Mark PlayerO, Mark PlayerX, Null],
              currentPlayer = PlayerX, gameState = Playing, winner = None,
              stats = initialStats\<rparr>"
  have playing: "gameState ?s = Playing" by simp
  have free: "\<not> truthy (js_get (board ?s) 8)" by (simp add: js_get_def)
  have res: "board (handleCellClick 8 ?s) = js_set (board ?s) 8 (Mark (currentPlayer ?s))"
    and rec: "outcomeRecorded ?s (handleCellClick 8 ?s)"
    using win_before_draw[OF playing, of 8] free by blast+
  have nb: "board (handleCellClick 8 ?s)
      = [Mark PlayerX, Mark PlayerO, Mark PlayerX,
         Mark PlayerO, Mark PlayerX, Mark PlayerO,
         Mark PlayerO, Mark PlayerX, Mark PlayerX]"
    unfolding res by (simp add: js_set_def)
  have full: "isBoardFull (board (handleCellClick 8 ?s))"
    unfolding nb by (simp add: isBoardFull_def)
  have win: "checkWinner (board (handleCellClick 8 ?s)) = Some PlayerX"
    unfolding nb by (simp add: checkWinner_def winningCombinations_def js_get_def)
  have "gameState (handleCellClick 8 ?s) = Won
      \<and> stats (handleCellClick 8 ?s) = (stats ?s)\<lparr>xWins := xWins (stats ?s) + 1\<rparr>"
    using rec win unfolding outcomeRecorded_def by blast
  then show ?thesis using full by (simp add: initialStats_def)
qed

text \<open>
  C4, as the code has it. A click on a cell that holds a mark, or in a game that is
  over (or, against the computer, when it is not X's turn), changes nothing. A click
  with an index past the end of the board is not rejected: in a running game the mark
  is written there and the board grows.
\<close>

theorem rejected_click_is_noop:
  "(truthy (js_get (board s) index) \<or> gameState s \<noteq> Playing \<longrightarrow>
      handleCellClick index s = s)
   \<and> (truthy (js_get (board s) index) \<or> gameState s \<noteq> Playing
        \<or> currentPlayer s \<noteq> PlayerX \<longrightarrow>
      handleCellClick_computer index s = s)
   \<and> (length (board s) \<le> index \<and> gameState s = Playing \<longrightarrow>
      length (board (handleCellClick index s)) = index + 1)"
proof (intro conjI impI)
  assume a: "length (board s) \<le> index \<and> gameState s = Playing"
  then have "\<not> truthy (js_get (board s) index)" by (simp add: js_get_def)
  then have "board (handleCellClick index s) = js_set (board s) index (Mark (currentPlayer s))"
    using outcomeRecorded_handleCellClick[of s index] a by simp
  then show "length (board (handleCellClick index s)) = index + 1"
    using a by (simp add: js_set_def)
qed (simp_all add: handleCellClick_def handleCellClick_computer_def)

theorem rejected_click_is_noop_witness:
  "truthy (js_get (board (handleCellClick 4 initialSession)) 4)
   \<and> handleCellClick 4 (handleCellClick 4 initialSession) = handleCellClick 4 initialSession
   \<and> handleCellClick_computer 4 (handleCellClick 4 initialSession)
       = handleCellClick 4 initialSession"
proof -
  let ?s = "handleCellClick 4 initialSession"
  have "board ?s = [Null, Null, Null, Null, Mark PlayerX, Null, Null, Null, Null]"
    by code_simp
  then have occ: "truthy (js_get (board ?s) 4)" by (simp add: js_get_def)
  then show ?thesis using rejected_click_is_noop[of ?s 4] by blast
qed

text \<open>A click with index 9 on a fresh game is accepted and changes the board.\<close>

theorem out_of_range_click_counterexample:
  "\<not> (9::nat) \<le> 8
   \<and> board (handleCellClick 9 initialSession) = replicate 9 Null @ [Mark PlayerX]
   \<and> currentPlayer (handleCellClick 9 initialSession) = PlayerO
   \<and> handleCellClick 9 initialSession \<noteq> initialSession"
proof -
  have b: "board (handleCellClick 9 initialSession) = replicate 9 Null @ [Mark PlayerX]"
    by code_simp
  have c: "currentPlayer (handleCellClick 9 initialSession) = PlayerO"
    by code_simp
  have "currentPlayer initialSession = PlayerX" by (simp add: initialSession_def)
  then have "handleCellClick 9 initialSession \<noteq> initialSession" using c by auto
  then show ?thesis using b c by simp
qed

section \<open>The board keeps its 9 cells and its marks\<close>

lemma js_get_js_set_Mark:
  "js_get b i = Mark p \<Longrightarrow> \<not> truthy (js_get b k) \<Longrightarrow> js_get (js_set b k v) i = Mark p"
  by (cases "i = k") (auto simp: js_get_def js_set_def nth_append split: if_splits)

lemma length_js_set_lt: "k < length b \<Longrightarrow> length (js_set b k v) = length b"
  by (simp add: js_set_def)

lemma board_handleCellClick:
  "board (handleCellClick index s) =
     (if truthy (js_get (board s) index) \<or> gameState s \<noteq> Playing then board s
      else js_set (board s) index (Mark (currentPlayer s)))"
  by (cases "checkWinner (js_set (board s) index (Mark (currentPlayer s)))")
     (simp_all add: handleCellClick_def Let_def)

lemma board_handleCellClick_computer:
  "board (handleCellClick_computer index s) =
     (if truthy (js_get (board s) index) \<or> gameState s \<noteq> Playing
         \<or> currentPlayer s \<noteq> PlayerX then board s
      else js_set (board s) index (Mark PlayerX))"
  by (cases "checkWinner (js_set (board s) index (Mark PlayerX))")
     (simp_all add: handleCellClick_computer_def Let_def)

lemma board_makeComputerMove:
  "board (makeComputerMove rnd s cb) =
     (if getEmptyCells cb = [] then board s
      else js_set cb (computerMoveIndex rnd cb) (Mark PlayerO))"
proof (cases "getEmptyCells cb = []")
  case True
  then show ?thesis by (simp add: makeComputerMove_def)
next
  case False
  then show ?thesis
    by (cases "checkWinner (js_set cb (computerMoveIndex rnd cb) (Mark PlayerO))")
       (simp_all add: makeComputerMove_unfold[OF False])
qed

lemma board_computerEffect:
  "board (computerEffect rnd s) =
     (if currentPlayer s = PlayerO \<and> gameState s = Playing \<and> getEmptyCells (board s) \<noteq> []
      then js_set (board s) (computerMoveIndex rnd (board s)) (Mark PlayerO)
      else board s)"
  by (simp add: computerEffect_def board_makeComputerMove)

lemma computerMoveIndex_not_truthy:
  "getEmptyCells cb \<noteq> [] \<Longrightarrow> \<not> truthy (js_get cb (computerMoveIndex rnd cb))"
  using computerMoveIndex_empty[of cb rnd] by (simp add: js_get_def)

text \<open>
  C5, as the code has it. From a board of 9 cells, a click with an index from 0 to 8, a
  move of the computer, a reset of the game and a reset of the statistics all leave a
  board of 9 cells. Whatever the index, a cell that holds a mark holds the same mark
  after a click, after a move of the computer and after a reset of the statistics;
  only the reset of the game empties cells.
\<close>

theorem board_invariant:
  assumes "length (board s) = 9"
  shows "(index < 9 \<longrightarrow> length (board (handleCellClick index s)) = 9
                      \<and> length (board (handleCellClick_computer index s)) = 9)
       \<and> length (board (computerEffect rnd s)) = 9
       \<and> length (board (makeComputerMove rnd s (board s))) = 9
       \<and> board (resetGame s) = replicate 9 Null
       \<and> board (resetStats s) = board s
       \<and> (\<forall>i p. js_get (board s) i = Mark p \<longrightarrow>
             js_get (board (handleCellClick index s)) i = Mark p
             \<and> js_get (board (handleCellClick_computer index s)) i = Mark p
             \<and> js_get (board (computerEffect rnd s)) i = Mark p
             \<and> js_get (board (makeComputerMove rnd s (board s))) i = Mark p)"
proof -
  have click: "index < 9 \<longrightarrow> length (board (handleCellClick index s)) = 9
      \<and> length (board (handleCellClick_computer index s)) = 9"
    using assms
    by (simp add: board_handleCellClick board_handleCellClick_computer length_js_set_lt)
  have mv: "length (board (makeComputerMove rnd s (board s))) = 9"
    using assms computerMoveIndex_empty[of "board s" rnd]
    by (simp add: board_makeComputerMove length_js_set_lt)
  have eff: "length (board (computerEffect rnd s)) = 9"
    using mv assms by (simp add: computerEffect_def)
  have resets: "board (resetGame s) = replicate 9 Null" "board (resetStats s) = board s"
    by (simp_all add: resetGame_def resetStats_def)
  have marks: "\<forall>i p. js_get (board s) i = Mark p \<longrightarrow>
             js_get (board (handleCellClick index s)) i = Mark p
             \<and> js_get (board (handleCellClick_computer index s)) i = Mark p
             \<and> js_get (board (computerEffect rnd s)) i = Mark p
             \<and> js_get (board (makeComputerMove rnd s (board s))) i = Mark p"
    by (simp add: board_handleCellClick board_handleCellClick_computer
        board_computerEffect board_makeComputerMove js_get_js_set_Mark
        computerMoveIndex_not_truthy)
  show ?thesis using click mv eff resets marks by blast
qed

theorem board_invariant_witness:
  "length (board initialSession) = 9
   \<and> length (board (handleCellClick_computer 4 initialSession)) = 9
   \<and> js_get (board (handleCellClick_computer 4 initialSession)) 4 = Mark PlayerX
   \<and> length (board (computerEffect 0 (handleCellClick_computer 4 initialSession))) = 9
   \<and> js_get (board (computerEffect 0 (handleCellClick_computer 4 initialSession))) 4
       = Mark PlayerX"
proof -
  let ?s = "handleCellClick_computer 4 initialSession"
  have len0: "length (board initialSession) = 9"
    by (simp add: initialSession_def emptyBoard_def)
  have len1: "length (board ?s) = 9"
    using board_invariant[OF len0, of 4] by simp
  have b: "board ?s = [Null, Null, Null, Null, Mark PlayerX, Null, Null, Null, Null]"
    by code_simp
  have m: "js_get (board ?s) 4 = Mark PlayerX" by (simp add: b js_get_def)
  show ?thesis using len0 len1 m board_invariant[OF len1, of 0 0] by blast
qed

text \<open>A click with index 9 on a fresh game leaves a board of 10 cells.\<close>

theorem board_length_counterexample:
  "length (board initialSession) = 9
   \<and> length (board (handleCellClick 9 initialSession)) = 10
   \<and> length (board (handleCellClick_computer 9 initialSession)) = 10"
  by code_simp

section \<open>A winning move is taken\<close>

text \<open>
  C8. With O on cells 0 and 1, X on cells 3 and 4 and O to move, \<open>getBestMove\<close> selects
  cell 2, and the computer's move ends the game as Won by O with one more win counted
  for O.
\<close>

theorem computer_takes_win:
  "getBestMove [Mark PlayerO, Mark PlayerO, Null,
                Mark PlayerX, Mark PlayerX, Null,
                Null, Null, Null] = 2
   \<and> computerEffect rnd
        \<lparr>board = [Mark PlayerO, Mark PlayerO, Null,
                  Mark PlayerX, Mark PlayerX, Null,
                  Null, Null, Null],
         currentPlayer = PlayerO, gameState = Playing, winner = None, stats = st\<rparr>
       = \<lparr>board = [Mark PlayerO, Mark PlayerO, Mark PlayerO,
                   Mark PlayerX, Mark PlayerX, Null,
                   Null, Null, Null],
          currentPlayer = PlayerO, gameState = Won, winner = Some PlayerO,
          stats = st\<lparr>oWins := oWins st + 1\<rparr>\<rparr>"
proof -
  let ?b = "[Mark PlayerO, Mark PlayerO, Null,
             Mark PlayerX, Mark PlayerX, Null,
             Null, Null, Null]"
  have best: "getBestMove ?b = 2" by code_simp
  have cells: "getEmptyCells ?b \<noteq> []" by code_simp
  have idx: "computerMoveIndex rnd ?b = 2" by (simp add: computerMoveIndex_def best)
  have nb: "js_set ?b 2 (Mark PlayerO)
      = [Mark PlayerO, Mark PlayerO, Mark PlayerO,
         Mark PlayerX, Mark PlayerX, Null, Null, Null, Null]"
    by (simp add: js_set_def)
  have win: "checkWinner [Mark PlayerO, Mark PlayerO, Mark PlayerO,
         Mark PlayerX, Mark PlayerX, Null, Null, Null, Null] = Some PlayerO"
    by (simp add: checkWinner_def winningCombinations_def js_get_def)
  show ?thesis
    using best
    by (simp add: computerEffect_def makeComputerMove_unfold[OF cells] idx nb win countWin_def)
qed

section \<open>Evaluating the bound checks\<close>

lemma anyO_Nil: "anyO b depth k [] = False"
  by (simp add: anyO_def)

lemma anyO_Cons:
  "anyO b depth k (i # cands) =
     (if js_get b i = Null
      then (if scoreAtLeast (js_set b i (Mark PlayerO)) (depth + 1) False k then True
            else anyO b depth k cands)
      else anyO b depth k cands)"
  by (simp add: anyO_def)

lemma allX_Nil: "allX b depth k [] = True"
  by (simp add: allX_def)

lemma allX_Cons:
  "allX b depth k (i # cands) =
     (if js_get b i = Null
      then (if scoreAtLeast (js_set b i (Mark PlayerX)) (depth + 1) True k
            then allX b depth k cands else False)
      else allX b depth k cands)"
  by (simp add: allX_def)

lemma scoreAtLeast_unfold:
  "scoreAtLeast b depth isMaximizing k =
     (case checkWinner b of
        Some w \<Rightarrow> (case w of PlayerO \<Rightarrow> k \<le> 10 - depth | PlayerX \<Rightarrow> k \<le> depth - 10)
      | None \<Rightarrow>
          if isBoardFull b then k \<le> 0
          else if isMaximizing then anyO b depth k searchOrder
          else allX b depth k searchOrder)"
  by (subst scoreAtLeast.simps)
     (simp add: anyO_def allX_def split: option.split player.split)

lemmas scoreAtLeast_eval = scoreAtLeast_unfold[unfolded searchOrder_def]

lemma js_get9:
  "js_get [c0, c1, c2, c3, c4, c5, c6, c7, c8] 0 = c0"
  "js_get [c0, c1, c2, c3, c4, c5, c6, c7, c8] 1 = c1"
  "js_get [c0, c1, c2, c3, c4, c5, c6, c7, c8] (Suc 0) = c1"
  "js_get [c0, c1, c2, c3, c4, c5, c6, c7, c8] 2 = c2"
  "js_get [c0, c1, c2, c3, c4, c5, c6, c7, c8] 3 = c3"
  "js_get [c0, c1, c2, c3, c4, c5, c6, c7, c8] 4 = c4"
  "js_get [c0, c1, c2, c3, c4, c5, c6, c7, c8] 5 = c5"
  "js_get [c0, c1, c2, c3, c4, c5, c6, c7, c8] 6 = c6"
  "js_get [c0, c1, c2, c3, c4, c5, c6, c7, c8] 7 = c7"
  "js_get [c0, c1, c2, c3, c4, c5, c6, c7, c8] 8 = c8"
  by (simp_all add: js_get_def)

lemma checkWinner9:
  "checkWinner [c0, c1, c2, c3, c4, c5, c6, c7, c8] =
     (if truthy c0 \<and> c0 = c1 \<and> c0 = c2 then (case c0 of Mark p \<Rightarrow> Some p | _ \<Rightarrow> None)
      else if truthy c3 \<and> c3 = c4 \<and> c3 = c5 then (case c3 of Mark p \<Rightarrow> Some p | _ \<Rightarrow> None)
      else if truthy c6 \<and> c6 = c7 \<and> c6 = c8 then (case c6 of Mark p \<Rightarrow> Some p | _ \<Rightarrow> None)
      else if truthy c0 \<and> c0 = c3 \<and> c0 = c6 then (case c0 of Mark p \<Rightarrow> Some p | _ \<Rightarrow> None)
      else if truthy c1 \<and> c1 = c4 \<and> c1 = c7 then (case c1 of Mark p \<Rightarrow> Some p | _ \<Rightarrow> None)
      else if truthy c2 \<and> c2 = c5 \<and> c2 = c8 then (case c2 of Mark p \<Rightarrow> Some p | _ \<Rightarrow> None)
      else if truthy c0 \<and> c0 = c4 \<and> c0 = c8 then (case c0 of Mark p \<Rightarrow> Some p | _ \<Rightarrow> None)
      else if truthy c2 \<and> c2 = c4 \<and> c2 = c6 then (case c2 of Mark p \<Rightarrow> Some p | _ \<Rightarrow> None)
      else None)"
  by (simp only: checkWinner_def winningCombinations_def checkWinner_loop.simps js_get9)

lemma isBoardFull9:
  "isBoardFull [c0, c1, c2, c3, c4, c5, c6, c7, c8] =
     (c0 \<noteq> Null \<and> c1 \<noteq> Null \<and> c2 \<noteq> Null \<and> c3 \<noteq> Null \<and> c4 \<noteq> Null
      \<and> c5 \<noteq> Null \<and> c6 \<noteq> Null \<and> c7 \<noteq> Null \<and> c8 \<noteq> Null)"
  by (simp add: isBoardFull_def)

lemma js_set9:
  "js_set [c0, c1, c2, c3, c4, c5, c6, c7, c8] 0 v = [v, c1, c2, c3, c4, c5, c6, c7, c8]"
  "js_set [c0, c1, c2, c3, c4, c5, c6, c7, c8] 1 v = [c0, v, c2, c3, c4, c5, c6, c7, c8]"
  "js_set [c0, c1, c2, c3, c4, c5, c6, c7, c8] (Suc 0) v = [c0, v, c2, c3, c4, c5, c6, c7, c8]"
  "js_set [c0, c1, c2, c3, c4, c5, c6, c7, c8] 2 v = [c0, c1, v, c3, c4, c5, c6, c7, c8]"
  "js_set [c0, c1, c2, c3, c4, c5, c6, c7, c8] 3 v = [c0, c1, c2, v, c4, c5, c6, c7, c8]"
  "js_set [c0, c1, c2, c3, c4, c5, c6, c7, c8] 4 v = [c0, c1, c2, c3, v, c5, c6, c7, c8]"
  "js_set [c0, c1, c2, c3, c4, c5, c6, c7, c8] 5 v = [c0, c1, c2, c3, c4, v, c6, c7, c8]"
  "js_set [c0, c1, c2, c3, c4, c5, c6, c7, c8] 6 v = [c0, c1, c2, c3, c4, c5, v, c7, c8]"
  "js_set [c0, c1, c2, c3, c4, c5, c6, c7, c8] 7 v = [c0, c1, c2, c3, c4, c5, c6, v, c8]"
  "js_set [c0, c1, c2, c3, c4, c5, c6, c7, c8] 8 v = [c0, c1, c2, c3, c4, c5, c6, c7, v]"
  by (simp_all add: js_set_def)

lemma allO_Nil: "allO b depth k [] = True"
  by (simp add: allO_def)

lemma allO_Cons:
  "allO b depth k (i # cands) =
     (if js_get b i = Null
      then (if scoreAtMost (js_set b i (Mark PlayerO)) (depth + 1) False k
            then allO b depth k cands else False)
      else allO b depth k cands)"
  by (simp add: allO_def)

lemma anyX_Nil: "anyX b depth k [] = False"
  by (simp add: anyX_def)

lemma anyX_Cons:
  "anyX b depth k (i # cands) =
     (if js_get b i = Null
      then (if scoreAtMost (js_set b i (Mark PlayerX)) (depth + 1) True k then True
            else anyX b depth k cands)
      else anyX b depth k cands)"
  by (simp add: anyX_def)

lemma scoreAtMost_unfold:
  "scoreAtMost b depth isMaximizing k =
     (case checkWinner b of
        Some w \<Rightarrow> (case w of PlayerO \<Rightarrow> 10 - depth \<le> k | PlayerX \<Rightarrow> depth - 10 \<le> k)
      | None \<Rightarrow>
          if isBoardFull b then 0 \<le> k
          else if isMaximizing then allO b depth k searchOrder
          else anyX b depth k searchOrder)"
  by (subst scoreAtMost.simps)
     (simp add: allO_def anyX_def split: option.split player.split)

lemmas scoreAtMost_eval = scoreAtMost_unfold[unfolded searchOrder_def]

lemmas eval9 = scoreAtLeast_eval scoreAtMost_eval checkWinner9 isBoardFull9 js_get9 js_set9
  anyO_Nil anyO_Cons allX_Nil allX_Cons allO_Nil allO_Cons anyX_Nil anyX_Cons

section \<open>The bound checks agree with the search\<close>

lemma set_searchOrder: "set searchOrder = set [0..<9]"
  by (auto simp: searchOrder_def)

lemma le_foldl_max:
  "Fin k \<le> foldl (\<lambda>best i. if P i then max (f i) best else best) NegInf xs
     \<longleftrightarrow> (\<exists>i \<in> set xs. P i \<and> Fin k \<le> f i)"
proof -
  have "Fin k \<le> Max (insert NegInf (f ` {i \<in> set xs. P i}))
      \<longleftrightarrow> (\<exists>s \<in> insert NegInf (f ` {i \<in> set xs. P i}). Fin k \<le> s)"
    by (rule Max_ge_iff) simp_all
  then show ?thesis by (auto simp: foldl_max_Max)
qed

lemma le_foldl_min:
  "Fin k \<le> foldl (\<lambda>best i. if P i then min (f i) best else best) PosInf xs
     \<longleftrightarrow> (\<forall>i \<in> set xs. P i \<longrightarrow> Fin k \<le> f i)"
proof -
  have "Fin k \<le> Min (insert PosInf (f ` {i \<in> set xs. P i}))
      \<longleftrightarrow> (\<forall>s \<in> insert PosInf (f ` {i \<in> set xs. P i}). Fin k \<le> s)"
    by (rule Min_ge_iff) simp_all
  then show ?thesis by (auto simp: foldl_min_Min)
qed

lemma foldl_max_le:
  "foldl (\<lambda>best i. if P i then max (f i) best else best) NegInf xs \<le> Fin k
     \<longleftrightarrow> (\<forall>i \<in> set xs. P i \<longrightarrow> f i \<le> Fin k)"
proof -
  have "Max (insert NegInf (f ` {i \<in> set xs. P i})) \<le> Fin k
      \<longleftrightarrow> (\<forall>s \<in> insert NegInf (f ` {i \<in> set xs. P i}). s \<le> Fin k)"
    by (rule Max_le_iff) simp_all
  then show ?thesis by (auto simp: foldl_max_Max)
qed

lemma foldl_min_le:
  "foldl (\<lambda>best i. if P i then min (f i) best else best) PosInf xs \<le> Fin k
     \<longleftrightarrow> (\<exists>i \<in> set xs. P i \<and> f i \<le> Fin k)"
proof -
  have "Min (insert PosInf (f ` {i \<in> set xs. P i})) \<le> Fin k
      \<longleftrightarrow> (\<exists>s \<in> insert PosInf (f ` {i \<in> set xs. P i}). s \<le> Fin k)"
    by (rule Min_le_iff) simp_all
  then show ?thesis by (auto simp: foldl_min_Min)
qed

lemma scoreAtLeast_iff:
  "scoreAtLeast b depth isMaximizing k \<longleftrightarrow> Fin k \<le> minimax b depth isMaximizing"
proof (induction b depth isMaximizing k rule: scoreAtLeast.induct)
  case (1 b depth isMaximizing k)
  show ?case
  proof (cases "checkWinner b = Some PlayerO \<or> checkWinner b = Some PlayerX \<or> isBoardFull b")
    case True
    then show ?thesis by (auto simp: minimax.simps[of b] scoreAtLeast.simps[of b])
  next
    case False
    then have nw: "checkWinner b \<noteq> Some PlayerO" "checkWinner b \<noteq> Some PlayerX"
      and nf: "\<not> isBoardFull b" by simp_all
    show ?thesis
    proof (cases isMaximizing)
      case True
      have "scoreAtLeast b depth isMaximizing k \<longleftrightarrow>
          (\<exists>i \<in> set searchOrder. js_get b i = Null
             \<and> scoreAtLeast (js_set b i (Mark PlayerO)) (depth + 1) False k)"
        using nw nf True by (auto simp: scoreAtLeast.simps[of b] anyOf_iff)
      also have "\<dots> \<longleftrightarrow> (\<exists>i \<in> set searchOrder. js_get b i = Null
             \<and> Fin k \<le> minimax (js_set b i (Mark PlayerO)) (depth + 1) False)"
        using "1.IH"(1)[OF nw nf True] by auto
      also have "\<dots> \<longleftrightarrow> Fin k \<le> minimax b depth isMaximizing"
        using nw nf True
        by (simp add: minimax.simps[of b] le_foldl_max set_searchOrder)
      finally show ?thesis .
    next
      case mn: False
      have "scoreAtLeast b depth isMaximizing k \<longleftrightarrow>
          (\<forall>i \<in> set searchOrder. js_get b i = Null
             \<longrightarrow> scoreAtLeast (js_set b i (Mark PlayerX)) (depth + 1) True k)"
        using nw nf mn by (auto simp: scoreAtLeast.simps[of b] allOf_iff)
      also have "\<dots> \<longleftrightarrow> (\<forall>i \<in> set searchOrder. js_get b i = Null
             \<longrightarrow> Fin k \<le> minimax (js_set b i (Mark PlayerX)) (depth + 1) True)"
        using "1.IH"(2)[OF nw nf mn] by auto
      also have "\<dots> \<longleftrightarrow> Fin k \<le> minimax b depth isMaximizing"
        using nw nf mn
        by (simp add: minimax.simps[of b] le_foldl_min set_searchOrder)
      finally show ?thesis .
    qed
  qed
qed

lemma scoreAtMost_iff:
  "scoreAtMost b depth isMaximizing k \<longleftrightarrow> minimax b depth isMaximizing \<le> Fin k"
proof (induction b depth isMaximizing k rule: scoreAtMost.induct)
  case (1 b depth isMaximizing k)
  show ?case
  proof (cases "checkWinner b = Some PlayerO \<or> checkWinner b = Some PlayerX \<or> isBoardFull b")
    case True
    then show ?thesis by (auto simp: minimax.simps[of b] scoreAtMost.simps[of b])
  next
    case False
    then have nw: "checkWinner b \<noteq> Some PlayerO" "checkWinner b \<noteq> Some PlayerX"
      and nf: "\<not> isBoardFull b" by simp_all
    show ?thesis
    proof (cases isMaximizing)
      case True
      have "scoreAtMost b depth isMaximizing k \<longleftrightarrow>
          (\<forall>i \<in> set searchOrder. js_get b i = Null
             \<longrightarrow> scoreAtMost (js_set b i (Mark PlayerO)) (depth + 1) False k)"
        using nw nf True by (auto simp: scoreAtMost.simps[of b] allOf_iff)
      also have "\<dots> \<longleftrightarrow> (\<forall>i \<in> set searchOrder. js_get b i = Null
             \<longrightarrow> minimax (js_set b i (Mark PlayerO)) (depth + 1) False \<le> Fin k)"
        using "1.IH"(1)[OF nw nf True] by auto
      also have "\<dots> \<longleftrightarrow> minimax b depth isMaximizing \<le> Fin k"
        using nw nf True
        by (simp add: minimax.simps[of b] foldl_max_le set_searchOrder)
      finally show ?thesis .
    next
      case mn: False
      have "scoreAtMost b depth isMaximizing k \<longleftrightarrow>
          (\<exists>i \<in> set searchOrder. js_get b i = Null
             \<and> scoreAtMost (js_set b i (Mark PlayerX)) (depth + 1) True k)"
        using nw nf mn by (auto simp: scoreAtMost.simps[of b] anyOf_iff)
      also have "\<dots> \<longleftrightarrow> (\<exists>i \<in> set searchOrder. js_get b i = Null
             \<and> minimax (js_set b i (Mark PlayerX)) (depth + 1) True \<le> Fin k)"
        using "1.IH"(2)[OF nw nf mn] by auto
      also have "\<dots> \<longleftrightarrow> minimax b depth isMaximizing \<le> Fin k"
        using nw nf mn
        by (simp add: minimax.simps[of b] foldl_min_le set_searchOrder)
      finally show ?thesis .
    qed
  qed
qed

section \<open>Certifying the selected move\<close>

lemma upt_0_9: "[0..<9] = [0, 1, 2, 3, 4, 5, 6, 7, 8 :: nat]"
  by code_simp

lemma Fin_less_iff: "Fin a < Fin b \<longleftrightarrow> a < b"
  by (auto simp: less_score_def)

lemma getBestMove_certified:
  assumes m: "m < 9"
    and ok: "allOf (maxCandidateOK b m k) [0, 1, 2, 3, 4, 5, 6, 7, 8]"
  shows "getBestMove b = int m"
proof -
  let ?P = "\<lambda>i. js_get b i = Null"
  let ?f = "\<lambda>i. minimax (js_set b i (Mark PlayerO)) 0 False"
  let ?G = "\<lambda>(bestScore, bestMove) i.
                   if ?P i
                   then (let score = ?f i
                         in if score > bestScore then (score, int i)
                            else (bestScore, bestMove))
                   else (bestScore, bestMove)"
  have all: "\<And>i. i < 9 \<Longrightarrow> maxCandidateOK b m k i"
    using ok unfolding allOf_iff upt_0_9[symmetric] by simp
  have at_m: "?P m" "Fin k \<le> ?f m"
    using all[OF m] by (auto simp: maxCandidateOK_def scoreAtLeast_iff split: if_splits)
  have before: "\<And>i. i < m \<Longrightarrow> ?P i \<Longrightarrow> ?f i < Fin k"
  proof -
    fix i assume i: "i < m" "?P i"
    then have "?f i \<le> Fin (k - 1)"
      using all[of i] m by (simp add: maxCandidateOK_def scoreAtMost_iff)
    moreover have "Fin (k - 1) < Fin k" by (simp add: Fin_less_iff)
    ultimately show "?f i < Fin k" by (rule order_le_less_trans)
  qed
  have after: "\<And>i. m < i \<Longrightarrow> i < 9 \<Longrightarrow> ?P i \<Longrightarrow> ?f i \<le> Fin k"
  proof -
    fix i assume i: "m < i" "i < 9" "?P i"
    then show "?f i \<le> Fin k"
      using all[of i] by (simp add: maxCandidateOK_def scoreAtMost_iff)
  qed
  obtain s mm where run: "foldl ?G (NegInf, - 1) [0..<9] = (s, mm)"
    by (cases "foldl ?G (NegInf, - 1) [0..<9]")
  have res: "getBestMove b = mm" using run by (simp add: getBestMove_def)
  note inv = getBestMove_loop_invariant[of ?P ?f 9 s mm, OF run]
  have ms: "?f m \<le> s" using inv m at_m(1) by blast
  then have "Fin k \<le> s" using at_m(2) by (rule order_trans[rotated])
  then have "s \<noteq> NegInf" by auto
  then obtain j where j: "j < 9" "mm = int j" "?P j" "?f j = s" "\<forall>i<j. ?P i \<longrightarrow> ?f i < s"
    using inv by auto
  have "j = m"
  proof (rule ccontr)
    assume "j \<noteq> m"
    then consider "j < m" | "m < j" by linarith
    then show False
    proof cases
      case 1
      then have "?f j < Fin k" using before j(3) by blast
      then show False using \<open>Fin k \<le> s\<close> j(4) by simp
    next
      case 2
      then have "?f m < s" using j(5) at_m(1) by blast
      moreover have "s \<le> Fin k" using after[OF 2 j(1) j(3)] j(4) by simp
      ultimately show False using at_m(2) by simp
    qed
  qed
  then show ?thesis using res j(2) by simp
qed

lemma isBestHumanMove_certified:
  assumes m: "m < 9"
    and ok: "allOf (minCandidateOK b m k) [0, 1, 2, 3, 4, 5, 6, 7, 8]"
  shows "isBestHumanMove b m"
proof -
  let ?P = "\<lambda>i. js_get b i = Null"
  let ?f = "\<lambda>i. minimax (js_set b i (Mark PlayerX)) 0 True"
  have all: "\<And>i. i < 9 \<Longrightarrow> minCandidateOK b m k i"
    using ok unfolding allOf_iff upt_0_9[symmetric] by simp
  have at_m: "?P m" "?f m \<le> Fin k"
    using all[OF m] by (auto simp: minCandidateOK_def scoreAtMost_iff split: if_splits)
  have others: "\<And>j. j < 9 \<Longrightarrow> ?P j \<Longrightarrow> ?f m \<le> ?f j"
  proof -
    fix j assume j: "j < 9" "?P j"
    consider "j = m" | "j < m" | "m < j" by linarith
    then show "?f m \<le> ?f j"
    proof cases
      case 1
      then show ?thesis by simp
    next
      case 2
      then have "Fin (k + 1) \<le> ?f j"
        using all[OF j(1)] j(2) by (simp add: minCandidateOK_def scoreAtLeast_iff)
      moreover have "Fin k \<le> Fin (k + 1)" by simp
      ultimately have "Fin k \<le> ?f j" by (rule order_trans[rotated])
      then show ?thesis using at_m(2) by (rule order_trans[rotated])
    next
      case 3
      then have "Fin k \<le> ?f j"
        using all[OF j(1)] j(2) by (simp add: minCandidateOK_def scoreAtLeast_iff)
      then show ?thesis using at_m(2) by (rule order_trans[rotated])
    qed
  qed
  show ?thesis
    using m at_m(1) others by (simp add: isBestHumanMove_def list_all_iff)
qed

section \<open>The sign of the score does not depend on the depth\<close>

lemma isBoardFull_emptyCount: "isBoardFull b \<longleftrightarrow> emptyCount b = 0"
  by (auto simp: isBoardFull_def emptyCount_def list_all_iff filter_empty_conv)

lemma minimax_sign_depth:
  "d + int (emptyCount b) \<le> 9 \<Longrightarrow> d' + int (emptyCount b) \<le> 9 \<Longrightarrow>
   (Fin 1 \<le> minimax b d isMaximizing \<longleftrightarrow> Fin 1 \<le> minimax b d' isMaximizing)
   \<and> (minimax b d isMaximizing \<le> Fin (- 1) \<longleftrightarrow> minimax b d' isMaximizing \<le> Fin (- 1))"
proof (induction b d isMaximizing arbitrary: d' rule: minimax.induct)
  case (1 b depth isMaximizing)
  show ?case
  proof (cases "checkWinner b = Some PlayerO \<or> checkWinner b = Some PlayerX \<or> isBoardFull b")
    case True
    then show ?thesis using "1.prems"
      by (auto simp: minimax.simps[of b])
  next
    case False
    then have nw: "checkWinner b \<noteq> Some PlayerO" "checkWinner b \<noteq> Some PlayerX"
      and nf: "\<not> isBoardFull b" by simp_all
    have child: "\<And>i p. js_get b i = Null \<Longrightarrow>
        depth + 1 + int (emptyCount (js_set b i (Mark p))) \<le> 9
        \<and> d' + 1 + int (emptyCount (js_set b i (Mark p))) \<le> 9"
    proof -
      fix i p assume "js_get b i = Null"
      then have "Suc (emptyCount (js_set b i (Mark p))) = emptyCount b"
        by (rule emptyCount_js_set) simp
      then show "depth + 1 + int (emptyCount (js_set b i (Mark p))) \<le> 9
        \<and> d' + 1 + int (emptyCount (js_set b i (Mark p))) \<le> 9"
        using "1.prems" by linarith
    qed
    show ?thesis
    proof (cases isMaximizing)
      case True
      have ih: "\<And>i. i \<in> set [0..<9] \<Longrightarrow> js_get b i = Null \<Longrightarrow>
          (Fin 1 \<le> minimax (js_set b i (Mark PlayerO)) (depth + 1) False
             \<longleftrightarrow> Fin 1 \<le> minimax (js_set b i (Mark PlayerO)) (d' + 1) False)
          \<and> (minimax (js_set b i (Mark PlayerO)) (depth + 1) False \<le> Fin (- 1)
             \<longleftrightarrow> minimax (js_set b i (Mark PlayerO)) (d' + 1) False \<le> Fin (- 1))"
        using "1.IH"(1)[OF nw nf True] child by blast
      show ?thesis using nw nf True ih
        by (simp add: minimax.simps[of b] le_foldl_max foldl_max_le Bex_def Ball_def) blast
    next
      case mn: False
      have ih: "\<And>i. i \<in> set [0..<9] \<Longrightarrow> js_get b i = Null \<Longrightarrow>
          (Fin 1 \<le> minimax (js_set b i (Mark PlayerX)) (depth + 1) True
             \<longleftrightarrow> Fin 1 \<le> minimax (js_set b i (Mark PlayerX)) (d' + 1) True)
          \<and> (minimax (js_set b i (Mark PlayerX)) (depth + 1) True \<le> Fin (- 1)
             \<longleftrightarrow> minimax (js_set b i (Mark PlayerX)) (d' + 1) True \<le> Fin (- 1))"
        using "1.IH"(2)[OF nw nf mn] child by blast
      show ?thesis using nw nf mn ih
        by (simp add: minimax.simps[of b] le_foldl_min foldl_min_le Bex_def Ball_def) blast
    qed
  qed
qed

lemma minimax_ge_zero_depth:
  assumes "length b \<le> 9" "d + int (emptyCount b) \<le> 9" "d' + int (emptyCount b) \<le> 9"
  shows "Fin 0 \<le> minimax b d isMaximizing \<longleftrightarrow> Fin 0 \<le> minimax b d' isMaximizing"
proof -
  have "\<And>s. (\<exists>v. s = Fin v) \<Longrightarrow> Fin 0 \<le> s \<longleftrightarrow> \<not> s \<le> Fin (- 1)" by auto
  then show ?thesis
    using minimax_sign_depth[OF assms(2,3), of isMaximizing]
      minimax_finite[OF assms(1), of d isMaximizing]
      minimax_finite[OF assms(1), of d' isMaximizing]
    by simp
qed

lemma minimax_le_zero_depth:
  assumes "length b \<le> 9" "d + int (emptyCount b) \<le> 9" "d' + int (emptyCount b) \<le> 9"
  shows "minimax b d isMaximizing \<le> Fin 0 \<longleftrightarrow> minimax b d' isMaximizing \<le> Fin 0"
proof -
  have "\<And>s. (\<exists>v. s = Fin v) \<Longrightarrow> s \<le> Fin 0 \<longleftrightarrow> \<not> Fin 1 \<le> s" by auto
  then show ?thesis
    using minimax_sign_depth[OF assms(2,3), of isMaximizing]
      minimax_finite[OF assms(1), of d isMaximizing]
      minimax_finite[OF assms(1), of d' isMaximizing]
    by simp
qed

lemma minimax_zero_no_winner:
  "minimax b 0 isMaximizing = Fin 0 \<Longrightarrow> checkWinner b = None"
proof (cases "checkWinner b")
  case (Some p)
  assume "minimax b 0 isMaximizing = Fin 0"
  then show ?thesis using Some by (cases p) (simp_all add: minimax.simps[of b])
qed simp

section \<open>Optimal moves keep the score at zero\<close>

lemma handleCellClick_computer_no_winner:
  assumes "gameState s = Playing" "currentPlayer s = PlayerX" "js_get (board s) i = Null"
    and "checkWinner (js_set (board s) i (Mark PlayerX)) = None"
  shows "handleCellClick_computer i s =
     (if isBoardFull (js_set (board s) i (Mark PlayerX))
      then s\<lparr>board := js_set (board s) i (Mark PlayerX), gameState := Draw,
             stats := (stats s)\<lparr>draws := draws (stats s) + 1\<rparr>\<rparr>
      else s\<lparr>board := js_set (board s) i (Mark PlayerX), currentPlayer := PlayerO\<rparr>)"
  using assms by (simp add: handleCellClick_computer_def)

lemma humanMove_keeps_zero:
  assumes len: "length b = 9"
    and nw: "checkWinner b = None" and nf: "\<not> isBoardFull b"
    and zero: "minimax b 0 False = Fin 0"
    and best: "isBestHumanMove b i"
  shows "minimax (js_set b i (Mark PlayerX)) 0 True = Fin 0"
proof -
  let ?P = "\<lambda>j. js_get b j = Null"
  let ?f0 = "\<lambda>j. minimax (js_set b j (Mark PlayerX)) 0 True"
  let ?f1 = "\<lambda>j. minimax (js_set b j (Mark PlayerX)) (0 + 1) True"
  have unfold: "minimax b 0 False
      = foldl (\<lambda>best j. if ?P j then min (?f1 j) best else best) PosInf [0..<9]"
    using nw nf by (simp add: minimax.simps[of b])
  have child: "\<And>j. ?P j \<Longrightarrow> length (js_set b j (Mark PlayerX)) \<le> 9
      \<and> 0 + int (emptyCount (js_set b j (Mark PlayerX))) \<le> 9
      \<and> 0 + 1 + int (emptyCount (js_set b j (Mark PlayerX))) \<le> 9"
  proof -
    fix j assume j: "?P j"
    then have "Suc (emptyCount (js_set b j (Mark PlayerX))) = emptyCount b"
      by (rule emptyCount_js_set) simp
    moreover have "emptyCount b \<le> 9" using emptyCount_le_length[of b] len by simp
    ultimately show "length (js_set b j (Mark PlayerX)) \<le> 9
      \<and> 0 + int (emptyCount (js_set b j (Mark PlayerX))) \<le> 9
      \<and> 0 + 1 + int (emptyCount (js_set b j (Mark PlayerX))) \<le> 9"
      using j len by (simp add: length_js_set_in_range)
  qed
  have ge1: "\<forall>j \<in> set [0..<9]. ?P j \<longrightarrow> Fin 0 \<le> ?f1 j"
    using zero unfolding unfold le_foldl_min[symmetric] by simp
  have "\<exists>j \<in> set [0..<9]. ?P j \<and> ?f1 j \<le> Fin 0"
    using zero unfolding unfold foldl_min_le[symmetric] by simp
  then obtain j where j: "j < 9" "?P j" "?f1 j \<le> Fin 0" by auto
  have "?f0 j \<le> Fin 0"
    using j(3) minimax_le_zero_depth[of "js_set b j (Mark PlayerX)" 0 "0 + 1" True] child[OF j(2)]
    by blast
  moreover have "?f0 i \<le> ?f0 j"
    using best j(1,2) by (simp add: isBestHumanMove_def list_all_iff)
  ultimately have le: "?f0 i \<le> Fin 0" by (rule order_trans[rotated])
  have Pi: "?P i" "i < 9" using best by (simp_all add: isBestHumanMove_def)
  then have "Fin 0 \<le> ?f1 i" using ge1 by simp
  then have ge: "Fin 0 \<le> ?f0 i"
    using minimax_ge_zero_depth[of "js_set b i (Mark PlayerX)" 0 "0 + 1" True] child[OF Pi(1)]
    by blast
  show ?thesis using le ge by (rule antisym)
qed

lemma computerMove_keeps_zero:
  assumes len: "length b = 9"
    and nw: "checkWinner b = None" and nf: "\<not> isBoardFull b"
    and zero: "minimax b 0 True = Fin 0"
  shows "0 \<le> getBestMove b \<and> getBestMove b \<noteq> - 1
     \<and> js_get b (nat (getBestMove b)) = Null
     \<and> minimax (js_set b (nat (getBestMove b)) (Mark PlayerO)) 0 False = Fin 0"
proof -
  let ?P = "\<lambda>j. js_get b j = Null"
  let ?g0 = "\<lambda>j. minimax (js_set b j (Mark PlayerO)) 0 False"
  let ?g1 = "\<lambda>j. minimax (js_set b j (Mark PlayerO)) (0 + 1) False"
  have unfold: "minimax b 0 True
      = foldl (\<lambda>best j. if ?P j then max (?g1 j) best else best) NegInf [0..<9]"
    using nw nf by (simp add: minimax.simps[of b])
  have child: "\<And>j. ?P j \<Longrightarrow> length (js_set b j (Mark PlayerO)) \<le> 9
      \<and> 0 + int (emptyCount (js_set b j (Mark PlayerO))) \<le> 9
      \<and> 0 + 1 + int (emptyCount (js_set b j (Mark PlayerO))) \<le> 9"
  proof -
    fix j assume j: "?P j"
    then have "Suc (emptyCount (js_set b j (Mark PlayerO))) = emptyCount b"
      by (rule emptyCount_js_set) simp
    moreover have "emptyCount b \<le> 9" using emptyCount_le_length[of b] len by simp
    ultimately show "length (js_set b j (Mark PlayerO)) \<le> 9
      \<and> 0 + int (emptyCount (js_set b j (Mark PlayerO))) \<le> 9
      \<and> 0 + 1 + int (emptyCount (js_set b j (Mark PlayerO))) \<le> 9"
      using j len by (simp add: length_js_set_in_range)
  qed
  have le1: "\<forall>j \<in> set [0..<9]. ?P j \<longrightarrow> ?g1 j \<le> Fin 0"
    using zero unfolding unfold foldl_max_le[symmetric] by simp
  have "\<exists>j \<in> set [0..<9]. ?P j \<and> Fin 0 \<le> ?g1 j"
    using zero unfolding unfold le_foldl_max[symmetric] by simp
  then obtain j where j: "j < 9" "?P j" "Fin 0 \<le> ?g1 j" by auto
  have gej: "Fin 0 \<le> ?g0 j"
    using j(3) minimax_ge_zero_depth[of "js_set b j (Mark PlayerO)" 0 "0 + 1" False] child[OF j(2)]
    by blast
  have ne: "\<exists>i<9. js_get b i = Null" using j by blast
  have len9: "length b \<le> 9" using len by simp
  from getBestMove_first_max[OF len9 ne] obtain m where m: "m < 9" "getBestMove b = int m"
    "?P m" "\<forall>i<9. ?P i \<longrightarrow> ?g0 i \<le> ?g0 m" by blast
  have "?g0 j \<le> ?g0 m" using m(4) j(1,2) by blast
  then have ge: "Fin 0 \<le> ?g0 m" using gej by (rule order_trans[rotated])
  have "?g1 m \<le> Fin 0" using le1 m(1,3) by simp
  then have le: "?g0 m \<le> Fin 0"
    using minimax_le_zero_depth[of "js_set b m (Mark PlayerO)" 0 "0 + 1" False] child[OF m(3)]
    by blast
  have "?g0 m = Fin 0" using le ge by (rule antisym)
  then show ?thesis using m(2,3) by simp
qed

lemma ex_isBestHumanMove:
  assumes "\<exists>j<9. js_get b j = Null"
  shows "\<exists>i. isBestHumanMove b i"
proof -
  let ?f = "\<lambda>j. minimax (js_set b j (Mark PlayerX)) 0 True"
  let ?C = "{j. j < 9 \<and> js_get b j = Null}"
  have fin: "finite (?f ` ?C)" by simp
  have ne: "?f ` ?C \<noteq> {}" using assms by auto
  from Min_in[OF fin ne] obtain i where i: "i \<in> ?C" "?f i = Min (?f ` ?C)" by auto
  have "\<And>j. j < 9 \<Longrightarrow> js_get b j = Null \<Longrightarrow> ?f i \<le> ?f j"
  proof -
    fix j assume "j < 9" "js_get b j = Null"
    then have "?f j \<in> ?f ` ?C" by blast
    then show "?f i \<le> ?f j" using Min_le[OF fin] i(2) by simp
  qed
  then have "isBestHumanMove b i" using i(1) by (simp add: isBestHumanMove_def list_all_iff)
  then show ?thesis ..
qed

lemma emptyCount_pos_has_empty:
  assumes "length b = 9" "emptyCount b = Suc e"
  shows "\<not> isBoardFull b" and "\<exists>j<9. js_get b j = Null"
proof -
  show nf: "\<not> isBoardFull b" using assms(2) by (simp add: isBoardFull_emptyCount)
  have "length b \<le> 9" using assms(1) by simp
  then show "\<exists>j<9. js_get b j = Null" using nf by (rule empty_candidates_upto_9)
qed

lemma humanStep:
  assumes len: "length (board s) = 9" and playing: "gameState s = Playing"
    and turn: "currentPlayer s = PlayerX"
    and zero: "minimax (board s) 0 False = Fin 0"
    and empties: "emptyCount (board s) = Suc e"
    and best: "isBestHumanMove (board s) i"
  shows "length (board (handleCellClick_computer i s)) = 9
     \<and> emptyCount (board (handleCellClick_computer i s)) = e
     \<and> winner (handleCellClick_computer i s) = winner s
     \<and> checkWinner (board (handleCellClick_computer i s)) = None
     \<and> minimax (board (handleCellClick_computer i s)) 0 True = Fin 0
     \<and> (if e = 0 then gameState (handleCellClick_computer i s) = Draw
         else gameState (handleCellClick_computer i s) = Playing
              \<and> currentPlayer (handleCellClick_computer i s) = PlayerO)"
proof -
  let ?nb = "js_set (board s) i (Mark PlayerX)"
  have nw: "checkWinner (board s) = None" using zero by (rule minimax_zero_no_winner)
  have nf: "\<not> isBoardFull (board s)" using emptyCount_pos_has_empty(1)[OF len empties] .
  have cell: "js_get (board s) i = Null" using best by (simp add: isBestHumanMove_def)
  have z: "minimax ?nb 0 True = Fin 0"
    using len nw nf zero best by (rule humanMove_keeps_zero)
  then have nw': "checkWinner ?nb = None" by (rule minimax_zero_no_winner)
  have cnt: "emptyCount ?nb = e"
    using emptyCount_js_set[OF cell, of "Mark PlayerX"] empties by simp
  have len': "length ?nb = 9" using cell len by (simp add: length_js_set_in_range)
  have full: "isBoardFull ?nb \<longleftrightarrow> e = 0" using cnt by (simp add: isBoardFull_emptyCount)
  show ?thesis
    using z nw' cnt len' full playing turn
    by (simp add: handleCellClick_computer_no_winner[OF playing turn cell nw'])
qed

lemma computerStep:
  assumes len: "length (board s) = 9" and playing: "gameState s = Playing"
    and turn: "currentPlayer s = PlayerO"
    and zero: "minimax (board s) 0 True = Fin 0"
    and empties: "emptyCount (board s) = Suc e"
  shows "length (board (computerEffect rnd s)) = 9
     \<and> emptyCount (board (computerEffect rnd s)) = e
     \<and> winner (computerEffect rnd s) = winner s
     \<and> checkWinner (board (computerEffect rnd s)) = None
     \<and> minimax (board (computerEffect rnd s)) 0 False = Fin 0
     \<and> (if e = 0 then gameState (computerEffect rnd s) = Draw
         else gameState (computerEffect rnd s) = Playing
              \<and> currentPlayer (computerEffect rnd s) = PlayerX)"
proof -
  let ?m = "nat (getBestMove (board s))"
  let ?nb = "js_set (board s) ?m (Mark PlayerO)"
  have nw: "checkWinner (board s) = None" using zero by (rule minimax_zero_no_winner)
  have nf: "\<not> isBoardFull (board s)" using emptyCount_pos_has_empty(1)[OF len empties] .
  have mv: "getBestMove (board s) \<noteq> - 1" "js_get (board s) ?m = Null"
    "minimax ?nb 0 False = Fin 0"
    using computerMove_keeps_zero[OF len nw nf zero] by simp_all
  have idx: "computerMoveIndex rnd (board s) = ?m"
    using mv(1) by (simp add: computerMoveIndex_def)
  have cands: "getEmptyCells (board s) \<noteq> []"
    using length_getEmptyCells[of "board s"] empties by auto
  have nw': "checkWinner ?nb = None" using mv(3) by (rule minimax_zero_no_winner)
  have cnt: "emptyCount ?nb = e"
    using emptyCount_js_set[OF mv(2), of "Mark PlayerO"] empties by simp
  have len': "length ?nb = 9" using mv(2) len by (simp add: length_js_set_in_range)
  have full: "isBoardFull ?nb \<longleftrightarrow> e = 0" using cnt by (simp add: isBoardFull_emptyCount)
  show ?thesis
    using mv(3) nw' cnt len' full playing turn
    by (simp add: computerEffect_def makeComputerMove_unfold[OF cands] idx)
qed

lemma computerEffect_idle: "gameState s \<noteq> Playing \<Longrightarrow> computerEffect rnd s = s"
  by (simp add: computerEffect_def)

lemma optimalPlay_over:
  "gameState s \<noteq> Playing \<Longrightarrow> optimalPlay rnd cells s = Some s' \<Longrightarrow> cells = [] \<and> s' = s"
  by (cases cells) simp_all

lemma optimalPlay_invariant:
  "optimalPlay rnd cells s = Some s' \<Longrightarrow> length (board s) = 9 \<Longrightarrow> gameState s = Playing \<Longrightarrow>
   currentPlayer s = PlayerX \<Longrightarrow> winner s = None \<Longrightarrow> emptyCount (board s) = 2 * r + 1 \<Longrightarrow>
   minimax (board s) 0 False = Fin 0 \<Longrightarrow>
   length cells \<le> r + 1 \<and> winner s' = None \<and> checkWinner (board s') = None
   \<and> gameState s' \<noteq> Won
   \<and> (gameState s' = Draw \<longleftrightarrow> length cells = r + 1)
   \<and> (gameState s' = Playing \<longleftrightarrow> length cells < r + 1)
   \<and> (length cells < r + 1 \<longrightarrow>
        currentPlayer s' = PlayerX \<and> (\<exists>i. isBestHumanMove (board s') i))"
proof (induction cells arbitrary: s r)
  case Nil
  then have s': "s' = s" by simp
  have "emptyCount (board s) = Suc (2 * r)" using Nil.prems(6) by simp
  then have "\<exists>j<9. js_get (board s) j = Null"
    using emptyCount_pos_has_empty(2)[OF Nil.prems(2)] by blast
  then have "\<exists>i. isBestHumanMove (board s) i" by (rule ex_isBestHumanMove)
  moreover have "checkWinner (board s) = None"
    using Nil.prems(7) by (rule minimax_zero_no_winner)
  ultimately show ?case using Nil.prems s' by simp
next
  case (Cons i cells)
  let ?s1 = "handleCellClick_computer i s"
  let ?s2 = "computerEffect rnd ?s1"
  have best: "isBestHumanMove (board s) i" and rest: "optimalPlay rnd cells ?s2 = Some s'"
    using Cons.prems(1) by (auto split: if_splits)
  have e: "emptyCount (board s) = Suc (2 * r)" using Cons.prems(6) by simp
  note h = humanStep[OF Cons.prems(2) Cons.prems(3) Cons.prems(4) Cons.prems(7) e best]
  show ?case
  proof (cases r)
    case 0
    then have draw: "gameState ?s1 = Draw" using h by simp
    then have idle: "?s2 = ?s1" by (simp add: computerEffect_idle)
    have "cells = [] \<and> s' = ?s1"
      using optimalPlay_over[of ?s1 rnd cells s'] draw rest idle by simp
    then show ?thesis using h draw 0 Cons.prems(5) by simp
  next
    case (Suc r')
    then have h1: "length (board ?s1) = 9" "gameState ?s1 = Playing"
      "currentPlayer ?s1 = PlayerO" "minimax (board ?s1) 0 True = Fin 0"
      "emptyCount (board ?s1) = Suc (2 * r' + 1)" "winner ?s1 = None"
      using h Cons.prems(5) by simp_all
    note c = computerStep[OF h1(1) h1(2) h1(3) h1(4) h1(5), of rnd]
    have c1: "length (board ?s2) = 9" "gameState ?s2 = Playing"
      "currentPlayer ?s2 = PlayerX" "winner ?s2 = None"
      "emptyCount (board ?s2) = 2 * r' + 1" "minimax (board ?s2) 0 False = Fin 0"
      using c h1(6) by simp_all
    from Cons.IH[OF rest c1]
    show ?thesis using Suc by auto
  qed
qed

section \<open>The game both sides play\<close>

lemma emptyBoard9: "emptyBoard = [Null, Null, Null, Null, Null, Null, Null, Null, Null]"
  by code_simp

text \<open>The empty board, with X to move, has score 0: neither side can force a win.\<close>

lemma minimax_emptyBoard:
  "minimax [Null, Null, Null, Null, Null, Null, Null, Null, Null] 0 False = Fin 0"
proof -
  have "scoreAtMost [Null, Null, Null, Null, Null, Null, Null, Null, Null] 0 False 0"
    by (simp add: eval9)
  then have le: "minimax [Null, Null, Null, Null, Null, Null, Null, Null, Null] 0 False \<le> Fin 0"
    by (simp only: scoreAtMost_iff)
  have "scoreAtLeast [Null, Null, Null, Null, Null, Null, Null, Null, Null] 0 False 0"
    by (simp add: eval9)
  then have ge: "Fin 0 \<le> minimax [Null, Null, Null, Null, Null, Null, Null, Null, Null] 0 False"
    by (simp only: scoreAtLeast_iff)
  show ?thesis using le ge by (rule antisym)
qed

text \<open>
  C9. Take any game from the empty board in which every click of X is an optimal move
  and O answers with the move \<open>getBestMove\<close> selects. X clicks at most 5 times; nobody
  ever wins; as long as X has clicked fewer than 5 times the game is still running, it
  is X's turn and X has an optimal move; after the fifth click the game is Drawn.
\<close>

theorem optimal_play_is_draw:
  assumes "optimalPlay rnd cells initialSession = Some s"
  shows "length cells \<le> 5 \<and> gameState s \<noteq> Won \<and> winner s = None
     \<and> checkWinner (board s) = None
     \<and> (gameState s = Draw \<longleftrightarrow> length cells = 5)
     \<and> (gameState s = Playing \<longleftrightarrow> length cells < 5)
     \<and> (length cells < 5 \<longrightarrow>
          currentPlayer s = PlayerX \<and> (\<exists>i. isBestHumanMove (board s) i))"
proof -
  have len: "length (board initialSession) = 9"
    by (simp add: initialSession_def emptyBoard9)
  have st: "gameState initialSession = Playing" "currentPlayer initialSession = PlayerX"
    "winner initialSession = None"
    by (simp_all add: initialSession_def)
  have cnt: "emptyCount (board initialSession) = 2 * 4 + 1"
    by (simp add: initialSession_def emptyBoard9 emptyCount_def)
  have zero: "minimax (board initialSession) 0 False = Fin 0"
    by (simp add: initialSession_def emptyBoard9 minimax_emptyBoard)
  show ?thesis
    using optimalPlay_invariant[OF assms len st cnt zero] by simp
qed

text \<open>
  One such game: X always takes the first of its optimal moves. The moves are
  0, 4, 1, 2, 6, 3, 5, 7, 8, alternately by X and O.
\<close>

lemma cands_nonempty: "0 < emptyCount b \<Longrightarrow> getEmptyCells b \<noteq> []"
  using length_getEmptyCells[of b] by auto

lemmas session9 = js_get9 js_set9 checkWinner9 isBoardFull9 Let_def

lemma play_move1:
  "isBestHumanMove
     [Null, Null, Null, Null, Null, Null, Null, Null, Null] 0"
proof -
  have "allOf (minCandidateOK
      [Null, Null, Null, Null, Null, Null, Null, Null, Null] 0 0)
      [0, 1, 2, 3, 4, 5, 6, 7, 8]"
    by (simp add: minCandidateOK_def eval9)
  then show ?thesis by (intro isBestHumanMove_certified) simp
qed

lemma play_move2:
  "getBestMove
     [Mark PlayerX, Null, Null, Null, Null, Null, Null, Null, Null] = 4"
proof -
  have "allOf (maxCandidateOK
      [Mark PlayerX, Null, Null, Null, Null, Null, Null, Null, Null] 4 0)
      [0, 1, 2, 3, 4, 5, 6, 7, 8]"
    by (simp add: maxCandidateOK_def eval9)
  then have "getBestMove
      [Mark PlayerX, Null, Null, Null, Null, Null, Null, Null, Null] = int 4"
    by (intro getBestMove_certified) simp
  then show ?thesis by simp
qed

lemma play_move3:
  "isBestHumanMove
     [Mark PlayerX, Null, Null, Null, Mark PlayerO, Null, Null, Null, Null] 1"
proof -
  have "allOf (minCandidateOK
      [Mark PlayerX, Null, Null, Null, Mark PlayerO, Null, Null, Null, Null] 1 0)
      [0, 1, 2, 3, 4, 5, 6, 7, 8]"
    by (simp add: minCandidateOK_def eval9)
  then show ?thesis by (intro isBestHumanMove_certified) simp
qed

lemma play_move4:
  "getBestMove
     [Mark PlayerX, Mark PlayerX, Null, Null, Mark PlayerO, Null, Null, Null, Null] = 2"
proof -
  have "allOf (maxCandidateOK
      [Mark PlayerX, Mark PlayerX, Null, Null, Mark PlayerO, Null, Null, Null, Null] 2 0)
      [0, 1, 2, 3, 4, 5, 6, 7, 8]"
    by (simp add: maxCandidateOK_def eval9)
  then have "getBestMove
      [Mark PlayerX, Mark PlayerX, Null, Null, Mark PlayerO, Null, Null, Null, Null] = int 2"
    by (intro getBestMove_certified) simp
  then show ?thesis by simp
qed

lemma play_move5:
  "isBestHumanMove
     [Mark PlayerX, Mark PlayerX, Mark PlayerO, Null, Mark PlayerO, Null, Null, Null, Null] 6"
proof -
  have "allOf (minCandidateOK
      [Mark PlayerX, Mark PlayerX, Mark PlayerO, Null, Mark PlayerO, Null, Null, Null, Null] 6 0)
      [0, 1, 2, 3, 4, 5, 6, 7, 8]"
    by (simp add: minCandidateOK_def eval9)
  then show ?thesis by (intro isBestHumanMove_certified) simp
qed

lemma play_move6:
  "getBestMove
     [Mark PlayerX, Mark PlayerX, Mark PlayerO, Null, Mark PlayerO, Null, Mark PlayerX, Null, Null] = 3"
proof -
  have "allOf (maxCandidateOK
      [Mark PlayerX, Mark PlayerX, Mark PlayerO, Null, Mark PlayerO, Null, Mark PlayerX, Null, Null] 3 0)
      [0, 1, 2, 3, 4, 5, 6, 7, 8]"
    by (simp add: maxCandidateOK_def eval9)
  then have "getBestMove
      [Mark PlayerX, Mark PlayerX, Mark PlayerO, Null, Mark PlayerO, Null, Mark PlayerX, Null, Null] = int 3"
    by (intro getBestMove_certified) simp
  then show ?thesis by simp
qed

lemma play_move7:
  "isBestHumanMove
     [Mark PlayerX, Mark PlayerX, Mark PlayerO, Mark PlayerO, Mark PlayerO, Null, Mark PlayerX, Null, Null] 5"
proof -
  have "allOf (minCandidateOK
      [Mark PlayerX, Mark PlayerX, Mark PlayerO, Mark PlayerO, Mark PlayerO, Null, Mark PlayerX, Null, Null] 5 0)
      [0, 1, 2, 3, 4, 5, 6, 7, 8]"
    by (simp add: minCandidateOK_def eval9)
  then show ?thesis by (intro isBestHumanMove_certified) simp
qed

lemma play_move8:
  "getBestMove
     [Mark PlayerX, Mark PlayerX, Mark PlayerO, Mark PlayerO, Mark PlayerO, Mark PlayerX, Mark PlayerX, Null, Null] = 7"
proof -
  have "allOf (maxCandidateOK
      [Mark PlayerX, Mark PlayerX, Mark PlayerO, Mark PlayerO, Mark PlayerO, Mark PlayerX, Mark PlayerX, Null, Null] 7 0)
      [0, 1, 2, 3, 4, 5, 6, 7, 8]"
    by (simp add: maxCandidateOK_def eval9)
  then have "getBestMove
      [Mark PlayerX, Mark PlayerX, Mark PlayerO, Mark PlayerO, Mark PlayerO, Mark PlayerX, Mark PlayerX, Null, Null] = int 7"
    by (intro getBestMove_certified) simp
  then show ?thesis by simp
qed

lemma play_move9:
  "isBestHumanMove
     [Mark PlayerX, Mark PlayerX, Mark PlayerO, Mark PlayerO, Mark PlayerO, Mark PlayerX, Mark PlayerX, Mark PlayerO, Null] 8"
proof -
  have "allOf (minCandidateOK
      [Mark PlayerX, Mark PlayerX, Mark PlayerO, Mark PlayerO, Mark PlayerO, Mark PlayerX, Mark PlayerX, Mark PlayerO, Null] 8 0)
      [0, 1, 2, 3, 4, 5, 6, 7, 8]"
    by (simp add: minCandidateOK_def eval9)
  then show ?thesis by (intro isBestHumanMove_certified) simp
qed

lemma play_round1:
  "optimalPlay rnd (0 # cells)
     \<lparr>board = [Null, Null, Null,
                Null, Null, Null,
                Null, Null, Null],
       currentPlayer = PlayerX, gameState = Playing, winner = None,
       stats = \<lparr>xWins = 0, oWins = 0, draws = 0\<rparr>\<rparr>
   = optimalPlay rnd cells
     \<lparr>board = [Mark PlayerX, Null, Null,
                Null, Mark PlayerO, Null,
                Null, Null, Null],
       currentPlayer = PlayerX, gameState = Playing, winner = None,
       stats = \<lparr>xWins = 0, oWins = 0, draws = 0\<rparr>\<rparr>"
proof -
  have click: "handleCellClick_computer 0
     \<lparr>board = [Null, Null, Null,
                Null, Null, Null,
                Null, Null, Null],
       currentPlayer = PlayerX, gameState = Playing, winner = None,
       stats = \<lparr>xWins = 0, oWins = 0, draws = 0\<rparr>\<rparr>
   = \<lparr>board = [Mark PlayerX, Null, Null,
                Null, Null, Null,
                Null, Null, Null],
       currentPlayer = PlayerO, gameState = Playing, winner = None,
       stats = \<lparr>xWins = 0, oWins = 0, draws = 0\<rparr>\<rparr>"
    by (simp add: handleCellClick_computer_def session9)
  have cands: "getEmptyCells
      [Mark PlayerX, Null, Null,
       Null, Null, Null,
       Null, Null, Null] \<noteq> []"
    by (rule cands_nonempty) (simp add: emptyCount_def)
  have reply: "computerEffect rnd
     \<lparr>board = [Mark PlayerX, Null, Null,
                Null, Null, Null,
                Null, Null, Null],
       currentPlayer = PlayerO, gameState = Playing, winner = None,
       stats = \<lparr>xWins = 0, oWins = 0, draws = 0\<rparr>\<rparr>
   = \<lparr>board = [Mark PlayerX, Null, Null,
                Null, Mark PlayerO, Null,
                Null, Null, Null],
       currentPlayer = PlayerX, gameState = Playing, winner = None,
       stats = \<lparr>xWins = 0, oWins = 0, draws = 0\<rparr>\<rparr>"
    by (simp add: computerEffect_def makeComputerMove_unfold[OF cands] computerMoveIndex_def
        play_move2 session9)
  show ?thesis using play_move1 click reply by simp
qed

lemma play_round2:
  "optimalPlay rnd (1 # cells)
     \<lparr>board = [Mark PlayerX, Null, Null,
                Null, Mark PlayerO, Null,
                Null, Null, Null],
       currentPlayer = PlayerX, gameState = Playing, winner = None,
       stats = \<lparr>xWins = 0, oWins = 0, draws = 0\<rparr>\<rparr>
   = optimalPlay rnd cells
     \<lparr>board = [Mark PlayerX, Mark PlayerX, Mark PlayerO,
                Null, Mark PlayerO, Null,
                Null, Null, Null],
       currentPlayer = PlayerX, gameState = Playing, winner = None,
       stats = \<lparr>xWins = 0, oWins = 0, draws = 0\<rparr>\<rparr>"
proof -
  have click: "handleCellClick_computer 1
     \<lparr>board = [Mark PlayerX, Null, Null,
                Null, Mark PlayerO, Null,
                Null, Null, Null],
       currentPlayer = PlayerX, gameState = Playing, winner = None,
       stats = \<lparr>xWins = 0, oWins = 0, draws = 0\<rparr>\<rparr>
   = \<lparr>board = [Mark PlayerX, Mark PlayerX, Null,
                Null, Mark PlayerO, Null,
                Null, Null, Null],
       currentPlayer = PlayerO, gameState = Playing, winner = None,
       stats = \<lparr>xWins = 0, oWins = 0, draws = 0\<rparr>\<rparr>"
    by (simp add: handleCellClick_computer_def session9)
  have cands: "getEmptyCells
      [Mark PlayerX, Mark PlayerX, Null,
       Null, Mark PlayerO, Null,
       Null, Null, Null] \<noteq> []"
    by (rule cands_nonempty) (simp add: emptyCount_def)
  have reply: "computerEffect rnd
     \<lparr>board = [Mark PlayerX, Mark PlayerX, Null,
                Null, Mark PlayerO, Null,
                Null, Null, Null],
       currentPlayer = PlayerO, gameState = Playing, winner = None,
       stats = \<lparr>xWins = 0, oWins = 0, draws = 0\<rparr>\<rparr>
   = \<lparr>board = [Mark PlayerX, Mark PlayerX, Mark PlayerO,
                Null, Mark PlayerO, Null,
                Null, Null, Null],
       currentPlayer = PlayerX, gameState = Playing, winner = None,
       stats = \<lparr>xWins = 0, oWins = 0, draws = 0\<rparr>\<rparr>"
    by (simp add: computerEffect_def makeComputerMove_unfold[OF cands] computerMoveIndex_def
        play_move4 session9)
  show ?thesis using play_move3 click reply by simp
qed

lemma play_round3:
  "optimalPlay rnd (6 # cells)
     \<lparr>board = [Mark PlayerX, Mark PlayerX, Mark PlayerO,
                Null, Mark PlayerO, Null,
                Null, Null, Null],
       currentPlayer = PlayerX, gameState = Playing, winner = None,
       stats = \<lparr>xWins = 0, oWins = 0, draws = 0\<rparr>\<rparr>
   = optimalPlay rnd cells
     \<lparr>board = [Mark PlayerX, Mark PlayerX, Mark PlayerO,
                Mark PlayerO, Mark PlayerO, Null,
                Mark PlayerX, Null, Null],
       currentPlayer = PlayerX, gameState = Playing, winner = None,
       stats = \<lparr>xWins = 0, oWins = 0, draws = 0\<rparr>\<rparr>"
proof -
  have click: "handleCellClick_computer 6
     \<lparr>board = [Mark PlayerX, Mark PlayerX, Mark PlayerO,
                Null, Mark PlayerO, Null,
                Null, Null, Null],
       currentPlayer = PlayerX, gameState = Playing, winner = None,
       stats = \<lparr>xWins = 0, oWins = 0, draws = 0\<rparr>\<rparr>
   = \<lparr>board = [Mark PlayerX, Mark PlayerX, Mark PlayerO,
                Null, Mark PlayerO, Null,
                Mark PlayerX, Null, Null],
       currentPlayer = PlayerO, gameState = Playing, winner = None,
       stats = \<lparr>xWins = 0, oWins = 0, draws = 0\<rparr>\<rparr>"
    by (simp add: handleCellClick_computer_def session9)
  have cands: "getEmptyCells
      [Mark PlayerX, Mark PlayerX, Mark PlayerO,
       Null, Mark PlayerO, Null,
       Mark PlayerX, Null, Null] \<noteq> []"
    by (rule cands_nonempty) (simp add: emptyCount_def)
  have reply: "computerEffect rnd
     \<lparr>board = [Mark PlayerX, Mark PlayerX, Mark PlayerO,
                Null, Mark PlayerO, Null,
                Mark PlayerX, Null, Null],
       currentPlayer = PlayerO, gameState = Playing, winner = None,
       stats = \<lparr>xWins = 0, oWins = 0, draws = 0\<rparr>\<rparr>
   = \<lparr>board = [Mark PlayerX, Mark PlayerX, Mark PlayerO,
                Mark PlayerO, Mark PlayerO, Null,
                Mark PlayerX, Null, Null],
       currentPlayer = PlayerX, gameState = Playing, winner = None,
       stats = \<lparr>xWins = 0, oWins = 0, draws = 0\<rparr>\<rparr>"
    by (simp add: computerEffect_def makeComputerMove_unfold[OF cands] computerMoveIndex_def
        play_move6 session9)
  show ?thesis using play_move5 click reply by simp
qed

lemma play_round4:
  "optimalPlay rnd (5 # cells)
     \<lparr>board = [Mark PlayerX, Mark PlayerX, Mark PlayerO,
                Mark PlayerO, Mark PlayerO, Null,
                Mark PlayerX, Null, Null],
       currentPlayer = PlayerX, gameState = Playing, winner = None,
       stats = \<lparr>xWins = 0, oWins = 0, draws = 0\<rparr>\<rparr>
   = optimalPlay rnd cells
     \<lparr>board = [Mark PlayerX, Mark PlayerX, Mark PlayerO,
                Mark PlayerO, Mark PlayerO, Mark PlayerX,
                Mark PlayerX, Mark PlayerO, Null],
       currentPlayer = PlayerX, gameState = Playing, winner = None,
       stats = \<lparr>xWins = 0, oWins = 0, draws = 0\<rparr>\<rparr>"
proof -
  have click: "handleCellClick_computer 5
     \<lparr>board = [Mark PlayerX, Mark PlayerX, Mark PlayerO,
                Mark PlayerO, Mark PlayerO, Null,
                Mark PlayerX, Null, Null],
       currentPlayer = PlayerX, gameState = Playing, winner = None,
       stats = \<lparr>xWins = 0, oWins = 0, draws = 0\<rparr>\<rparr>
   = \<lparr>board = [Mark PlayerX, Mark PlayerX, Mark PlayerO,
                Mark PlayerO, Mark PlayerO, Mark PlayerX,
                Mark PlayerX, Null, Null],
       currentPlayer = PlayerO, gameState = Playing, winner = None,
       stats = \<lparr>xWins = 0, oWins = 0, draws = 0\<rparr>\<rparr>"
    by (simp add: handleCellClick_computer_def session9)
  have cands: "getEmptyCells
      [Mark PlayerX, Mark PlayerX, Mark PlayerO,
       Mark PlayerO, Mark PlayerO, Mark PlayerX,
       Mark PlayerX, Null, Null] \<noteq> []"
    by (rule cands_nonempty) (simp add: emptyCount_def)
  have reply: "computerEffect rnd
     \<lparr>board = [Mark PlayerX, Mark PlayerX, Mark PlayerO,
                Mark PlayerO, Mark PlayerO, Mark PlayerX,
                Mark PlayerX, Null, Null],
       currentPlayer = PlayerO, gameState = Playing, winner = None,
       stats = \<lparr>xWins = 0, oWins = 0, draws = 0\<rparr>\<rparr>
   = \<lparr>board = [Mark PlayerX, Mark PlayerX, Mark PlayerO,
                Mark PlayerO, Mark PlayerO, Mark PlayerX,
                Mark PlayerX, Mark PlayerO, Null],
       currentPlayer = PlayerX, gameState = Playing, winner = None,
       stats = \<lparr>xWins = 0, oWins = 0, draws = 0\<rparr>\<rparr>"
    by (simp add: computerEffect_def makeComputerMove_unfold[OF cands] computerMoveIndex_def
        play_move8 session9)
  show ?thesis using play_move7 click reply by simp
qed

lemma play_round5:
  "optimalPlay rnd (8 # cells)
     \<lparr>board = [Mark PlayerX, Mark PlayerX, Mark PlayerO,
                Mark PlayerO, Mark PlayerO, Mark PlayerX,
                Mark PlayerX, Mark PlayerO, Null],
       currentPlayer = PlayerX, gameState = Playing, winner = None,
       stats = \<lparr>xWins = 0, oWins = 0, draws = 0\<rparr>\<rparr>
   = optimalPlay rnd cells
     \<lparr>board = [Mark PlayerX, Mark PlayerX, Mark PlayerO,
                Mark PlayerO, Mark PlayerO, Mark PlayerX,
                Mark PlayerX, Mark PlayerO, Mark PlayerX],
       currentPlayer = PlayerX, gameState = Draw, winner = None,
       stats = \<lparr>xWins = 0, oWins = 0, draws = 1\<rparr>\<rparr>"
proof -
  have click: "handleCellClick_computer 8
     \<lparr>board = [Mark PlayerX, Mark PlayerX, Mark PlayerO,
                Mark PlayerO, Mark PlayerO, Mark PlayerX,
                Mark PlayerX, Mark PlayerO, Null],
       currentPlayer = PlayerX, gameState = Playing, winner = None,
       stats = \<lparr>xWins = 0, oWins = 0, draws = 0\<rparr>\<rparr>
   = \<lparr>board = [Mark PlayerX, Mark PlayerX, Mark PlayerO,
                Mark PlayerO, Mark PlayerO, Mark PlayerX,
                Mark PlayerX, Mark PlayerO, Mark PlayerX],
       currentPlayer = PlayerX, gameState = Draw, winner = None,
       stats = \<lparr>xWins = 0, oWins = 0, draws = 1\<rparr>\<rparr>"
    by (simp add: handleCellClick_computer_def session9)
  show ?thesis using play_move9 click by (simp add: computerEffect_def)
qed

theorem optimal_play_is_draw_witness:
  "optimalPlay 0 [0, 1, 6, 5, 8] initialSession
     = Some \<lparr>board = [Mark PlayerX, Mark PlayerX, Mark PlayerO,
                Mark PlayerO, Mark PlayerO, Mark PlayerX,
                Mark PlayerX, Mark PlayerO, Mark PlayerX],
       currentPlayer = PlayerX, gameState = Draw, winner = None,
       stats = \<lparr>xWins = 0, oWins = 0, draws = 1\<rparr>\<rparr>
   \<and> gameState
     \<lparr>board = [Mark PlayerX, Mark PlayerX, Mark PlayerO,
                Mark PlayerO, Mark PlayerO, Mark PlayerX,
                Mark PlayerX, Mark PlayerO, Mark PlayerX],
       currentPlayer = PlayerX, gameState = Draw, winner = None,
       stats = \<lparr>xWins = 0, oWins = 0, draws = 1\<rparr>\<rparr> = Draw
   \<and> checkWinner (board
     \<lparr>board = [Mark PlayerX, Mark PlayerX, Mark PlayerO,
                Mark PlayerO, Mark PlayerO, Mark PlayerX,
                Mark PlayerX, Mark PlayerO, Mark PlayerX],
       currentPlayer = PlayerX, gameState = Draw, winner = None,
       stats = \<lparr>xWins = 0, oWins = 0, draws = 1\<rparr>\<rparr>) = None"
proof -
  have start: "initialSession =
     \<lparr>board = [Null, Null, Null,
                Null, Null, Null,
                Null, Null, Null],
       currentPlayer = PlayerX, gameState = Playing, winner = None,
       stats = \<lparr>xWins = 0, oWins = 0, draws = 0\<rparr>\<rparr>"
    by (simp add: initialSession_def initialStats_def emptyBoard9)
  have run: "optimalPlay 0 [0, 1, 6, 5, 8] initialSession
     = Some \<lparr>board = [Mark PlayerX, Mark PlayerX, Mark PlayerO,
                Mark PlayerO, Mark PlayerO, Mark PlayerX,
                Mark PlayerX, Mark PlayerO, Mark PlayerX],
       currentPlayer = PlayerX, gameState = Draw, winner = None,
       stats = \<lparr>xWins = 0, oWins = 0, draws = 1\<rparr>\<rparr>"
    unfolding start
    by (simp only: play_round1 play_round2 play_round3 play_round4 play_round5
        optimalPlay.simps(1))
  show ?thesis using optimal_play_is_draw[OF run] run by simp
qed

end
